theory Spec2Isabelle
  imports Complex_Main "HOL-Library.Word" "HOL-Library.Product_Lexorder"
begin

unbundle bit_operations_syntax

section \<open>The vector database of vec_db.py\<close>

text \<open>
  The module keeps the vectors in one flat file of float32 values and an IVF index in a
  directory of posting-list files plus one centroid file. The development below embeds
  the class \<^verbatim>\<open>VecDB\<close> function by function. The clustering routine
  (\<^verbatim>\<open>MiniBatchKMeans\<close>), the random generator and numpy's floating-point
  arithmetic are library code: they are parameters of the functions that call them.
\<close>

subsection \<open>Constants\<close>

definition DIMENSION :: nat where
  "DIMENSION = 70"

definition ELEMENT_SIZE :: nat where
  "ELEMENT_SIZE = 4"

subsection \<open>Centroid count of the index build\<close>

text \<open>
  \<^verbatim>\<open>int(np.sqrt(n))\<close>: the float64 square root, truncated. The float64 root is
  correctly rounded, so for every record count below \<open>2^52\<close> the truncation is the
  integer square root, computed here by the digit-by-digit recursion. From \<open>2^52\<close>
  on the rounded root can reach the next integer, and the function below is no longer what
  the source computes: what is proved of the centroid count is stated for record counts
  below \<open>2^52\<close>.
\<close>

fun int_sqrt :: "nat \<Rightarrow> nat" where
  "int_sqrt n =
     (if n = 0 then 0
      else (let r = 2 * int_sqrt (n div 4)
            in if (r + 1) * (r + 1) \<le> n then r + 1 else r))"

declare int_sqrt.simps [simp del]

text \<open>
  Lines 176 to 180 of \<^verbatim>\<open>_build_index\<close>: the base value, then the two overriding
  assignments, in the order of the source.
\<close>

definition centroid_count :: "nat \<Rightarrow> nat" where
  "centroid_count n =
     (let c0 = int_sqrt n * 2;
          c1 = (if n = 15 * 10 ^ 6 then int_sqrt n * 5 else c0);
          c2 = (if n = 20 * 10 ^ 6 then int_sqrt n * 6 else c1)
      in c2)"

subsection \<open>Values, errors and the state\<close>

text \<open>
  A float32 is its bit pattern, so that "the same value" is equality of words. A file is
  its sequence of bytes; numpy writes a float32 little-endian.
\<close>

type_synonym byte = "8 word"
type_synonym f32 = "32 word"
type_synonym vec = "f32 list"

datatype py_error =
    ValueError | IndexError | TypeError | OverflowError | FileNotFoundError | OSError

type_synonym 'a result = "py_error + 'a"

text \<open>
  The files of the index directory. The helpers that read and write them live in the
  module \<^verbatim>\<open>utils\<close>, which is not part of the sources at hand; a file is
  kept as the sequence of values these helpers store in it.
\<close>

datatype index_file = Records "nat list" | Centroids "vec list"

text \<open>
  The state an operation works on: the file at \<^verbatim>\<open>self.db_path\<close>
  (\<open>None\<close>: no such file), the directory at \<^verbatim>\<open>self.index_path\<close> with its
  files by name, the attribute \<^verbatim>\<open>self.no_centroids\<close>, and the number of writes
  to index files that the device still accepts (\<open>None\<close>: every write succeeds;
  \<open>Some k\<close>: the next \<open>k\<close> writes succeed and the one after raises \<open>OSError\<close>).
\<close>

record vecdb =
  db_file :: "byte list option"
  index_dir :: "(string \<rightharpoonup> index_file) option"
  no_centroids :: nat
  writes_left :: "nat option"

subsection \<open>Library code taken as parameters\<close>

text \<open>
  \<^verbatim>\<open>MiniBatchKMeans\<close>: \<open>km_fit n_clusters data\<close> is the fitted model or the
  exception of \<^verbatim>\<open>fit\<close>, \<open>km_predict\<close> the labels of \<^verbatim>\<open>predict\<close>,
  \<open>km_centers\<close> the attribute \<^verbatim>\<open>cluster_centers_\<close>.
\<close>

record 'm kmeans =
  km_fit :: "nat \<Rightarrow> vec list \<Rightarrow> 'm result"
  km_predict :: "'m \<Rightarrow> vec list \<Rightarrow> nat list result"
  km_centers :: "'m \<Rightarrow> vec list"

text \<open>
  numpy's floating-point arithmetic on the stored bit patterns: the dot product of two
  vectors, the Euclidean norm, the product and the quotient of two scalars. Each returns
  a scalar for every operand (a quotient by zero is \<open>nan\<close> or \<open>inf\<close> with a
  warning, not an exception). The scalars are compared by Python's \<open><\<close>, a linear
  order as long as no \<open>nan\<close> is among them.
\<close>

record 's numerics =
  np_dot :: "vec \<Rightarrow> vec \<Rightarrow> 's"
  np_norm :: "vec \<Rightarrow> 's"
  np_mul :: "'s \<Rightarrow> 's \<Rightarrow> 's"
  np_div :: "'s \<Rightarrow> 's \<Rightarrow> 's"

subsection \<open>Bytes and arrays\<close>

definition f32_to_bytes :: "f32 \<Rightarrow> byte list" where
  "f32_to_bytes w = [ucast w, ucast (drop_bit 8 w), ucast (drop_bit 16 w), ucast (drop_bit 24 w)]"

definition f32_of_bytes :: "byte \<Rightarrow> byte \<Rightarrow> byte \<Rightarrow> byte \<Rightarrow> f32" where
  "f32_of_bytes b0 b1 b2 b3 =
     ucast b0 OR push_bit 8 (ucast b1) OR push_bit 16 (ucast b2) OR push_bit 24 (ucast b3)"

definition row_bytes :: "vec \<Rightarrow> byte list" where
  "row_bytes v = concat (map f32_to_bytes v)"

definition rows_bytes :: "vec list \<Rightarrow> byte list" where
  "rows_bytes rows = concat (map row_bytes rows)"

text \<open>\<^verbatim>\<open>np.frombuffer(data, dtype=np.float32)\<close> on a buffer of whole elements.\<close>

fun decode_floats :: "byte list \<Rightarrow> vec" where
  "decode_floats (b0 # b1 # b2 # b3 # bs) = f32_of_bytes b0 b1 b2 b3 # decode_floats bs"
| "decode_floats _ = []"

text \<open>Rows of \<open>n\<close> elements each: \<^verbatim>\<open>reshape(-1, n)\<close> on whole rows.\<close>

function chunks :: "nat \<Rightarrow> 'a list \<Rightarrow> 'a list list" where
  "chunks n xs = (if n = 0 \<or> xs = [] then [] else take n xs # chunks n (drop n xs))"
  by pat_completeness auto
termination
  by (relation "measure (\<lambda>(n, xs). length xs)") auto

declare chunks.simps [simp del]

definition ROW_BYTES :: nat where
  "ROW_BYTES = DIMENSION * ELEMENT_SIZE"

text \<open>
  \<^verbatim>\<open>np.frombuffer(block_data, dtype=np.float32).reshape(-1, DIMENSION)\<close>: a buffer
  that is not a whole number of elements, or of rows, raises \<open>ValueError\<close>.
\<close>

definition frombuffer_reshape :: "byte list \<Rightarrow> vec list result" where
  "frombuffer_reshape bs =
     (if length bs mod ELEMENT_SIZE \<noteq> 0 then Inl ValueError
      else if length (decode_floats bs) mod DIMENSION \<noteq> 0 then Inl ValueError
      else Inr (chunks DIMENSION (decode_floats bs)))"

subsection \<open>Memory maps\<close>

definition ALLOCATIONGRANULARITY :: int where
  "ALLOCATIONGRANULARITY = 4096"

text \<open>
  \<^verbatim>\<open>mmap.mmap(fileno, length, offset=start)\<close> on a file of \<open>flen\<close> bytes: the
  checks of the call, in their order.
\<close>

definition mmap_check :: "nat \<Rightarrow> int \<Rightarrow> int \<Rightarrow> py_error option" where
  "mmap_check flen map_size start =
     (if map_size < 0 then Some OverflowError
      else if start < 0 then Some OverflowError
      else if map_size = 0 then
        (if flen = 0 then Some ValueError
         else if start \<ge> int flen then Some ValueError
         else None)
      else if start > int flen \<or> int flen - start < map_size then Some ValueError
      else None)"

text \<open>
  \<^verbatim>\<open>np.memmap(path, dtype=np.float32, mode='r', shape=(nrows, DIMENSION), offset=offset)\<close>
  read as an array: the mapped window starts at the allocation boundary below the offset.
  The integers are unbounded here. numpy adds the size of the array to the offset in 64
  bits, and the call raises \<open>OverflowError\<close> when the sum is above \<open>2^63 - 1\<close>:
  the function below is what the source computes for every window that ends at a byte
  below \<open>2^63\<close>, which covers every window inside a file, and what is proved of a window
  outside the file is stated under this bound.
\<close>

definition memmap_r :: "byte list option \<Rightarrow> nat \<Rightarrow> int \<Rightarrow> vec list result" where
  "memmap_r file nrows offset =
     (case file of
        None \<Rightarrow> Inl FileNotFoundError
      | Some bs \<Rightarrow>
          (let bytes = offset + int (nrows * DIMENSION * ELEMENT_SIZE);
               start = offset - offset mod ALLOCATIONGRANULARITY
           in case mmap_check (length bs) (bytes - start) start of
                Some e \<Rightarrow> Inl e
              | None \<Rightarrow>
                  Inr (chunks DIMENSION
                        (decode_floats (take (nrows * DIMENSION * ELEMENT_SIZE) (drop (nat offset) bs))))))"

text \<open>
  Opening a map for writing (modes \<^verbatim>\<open>r+\<close> and \<^verbatim>\<open>w+\<close>, offset 0) on a file
  with content \<open>bs\<close>: a file shorter than the array is extended with zero bytes, then
  mapped. The result is the content of the file once the map is open.
\<close>

definition memmap_open_w :: "byte list \<Rightarrow> nat \<Rightarrow> byte list \<times> py_error option" where
  "memmap_open_w bs bytes =
     (let bs' = (if length bs < bytes then bs @ replicate (bytes - length bs) 0 else bs)
      in (bs', mmap_check (length bs') (int bytes) 0))"

text \<open>
  \<^verbatim>\<open>mmap_vectors[first:] = rows\<close> followed by \<^verbatim>\<open>flush()\<close>: the bytes of the
  rows replace the bytes of the file from row \<open>first\<close> on.
\<close>

definition assign_rows :: "byte list \<Rightarrow> nat \<Rightarrow> vec list \<Rightarrow> byte list" where
  "assign_rows bs first rows =
     take (first * ROW_BYTES) bs @ rows_bytes rows
       @ drop (first * ROW_BYTES + length (rows_bytes rows)) bs"

text \<open>
  The right-hand side of the assignment must have the shape of the slice,
  \<open>(len(rows), DIMENSION)\<close>, or broadcast to it, which a column of width 1 does; any
  other width raises \<open>ValueError\<close>.
\<close>

definition broadcast_rows :: "vec list \<Rightarrow> vec list result" where
  "broadcast_rows rows =
     (if \<forall>r \<in> set rows. length r = DIMENSION then Inr rows
      else if \<forall>r \<in> set rows. length r = 1 then Inr (map (\<lambda>r. replicate DIMENSION (hd r)) rows)
      else Inl ValueError)"

subsection \<open>The row accessors\<close>

text \<open>
  A private method of the source, such as \<^verbatim>\<open>_get_num_records\<close>, keeps its name
  without the leading underscore.
\<close>

definition get_num_records :: "vecdb \<Rightarrow> nat result" where
  "get_num_records db =
     (case db_file db of
        None \<Rightarrow> Inl FileNotFoundError
      | Some bs \<Rightarrow> Inr (length bs div (DIMENSION * ELEMENT_SIZE)))"

text \<open>
  What \<^verbatim>\<open>get_one_row\<close> returns: the row as an array, or, from its handler of
  every exception, the string \<^verbatim>\<open>f"An error occurred: {e}"\<close> for the exception
  \<open>e\<close> caught. The function raises nothing.
\<close>

datatype row_value = NdArray vec | ErrorString py_error

definition get_one_row :: "vecdb \<Rightarrow> int \<Rightarrow> row_value" where
  "get_one_row db row_num =
     (let offset = row_num * int DIMENSION * int ELEMENT_SIZE
      in case memmap_r (db_file db) 1 offset of
           Inl e \<Rightarrow> ErrorString e
         | Inr mmap_vector \<Rightarrow>
             (case mmap_vector of [] \<Rightarrow> ErrorString IndexError | v # _ \<Rightarrow> NdArray v))"

text \<open>The grouping loop of \<^verbatim>\<open>get_rows\<close>: maximal runs of consecutive ids.\<close>

fun group_ranges :: "int \<Rightarrow> int \<Rightarrow> int list \<Rightarrow> (int \<times> int) list" where
  "group_ranges start prev [] = [(start, prev)]"
| "group_ranges start prev (i # ids) =
     (if i = prev + 1 then group_ranges start i ids
      else (start, prev) # group_ranges i i ids)"

text \<open>
  The reading loop: \<^verbatim>\<open>seek\<close> rejects a negative offset, \<^verbatim>\<open>read\<close> returns
  the bytes that are there, at most the number asked for, and a block with fewer rows
  than the range raises \<open>IndexError\<close> at \<^verbatim>\<open>block_vectors[i]\<close>.
\<close>

fun read_ranges :: "byte list \<Rightarrow> (int \<times> int) list \<Rightarrow> vec list result" where
  "read_ranges bs [] = Inr []"
| "read_ranges bs ((start, end) # ranges) =
     (let range_size = end - start + 1;
          offset = start * int DIMENSION * int ELEMENT_SIZE
      in if offset < 0 then Inl OSError
         else
           (case frombuffer_reshape
                   (take (nat (range_size * int DIMENSION * int ELEMENT_SIZE)) (drop (nat offset) bs)) of
              Inl e \<Rightarrow> Inl e
            | Inr block_vectors \<Rightarrow>
                if length block_vectors < nat range_size then Inl IndexError
                else
                  (case read_ranges bs ranges of
                     Inl e \<Rightarrow> Inl e
                   | Inr vectors \<Rightarrow> Inr (take (nat range_size) block_vectors @ vectors))))"

text \<open>The body of the \<^verbatim>\<open>try\<close> of \<^verbatim>\<open>get_rows\<close>.\<close>

definition get_rows_body :: "vecdb \<Rightarrow> int list \<Rightarrow> vec list result" where
  "get_rows_body db ids =
     (case db_file db of
        None \<Rightarrow> Inl FileNotFoundError
      | Some bs \<Rightarrow>
          (case ids of
             [] \<Rightarrow> Inl IndexError
           | i # rest \<Rightarrow> read_ranges bs (group_ranges i i rest)))"

text \<open>The handler prints the exception and returns an array with no rows.\<close>

definition get_rows :: "vecdb \<Rightarrow> int list \<Rightarrow> vec list" where
  "get_rows db ids = (case get_rows_body db ids of Inl e \<Rightarrow> [] | Inr vectors \<Rightarrow> vectors)"

definition get_all_rows :: "vecdb \<Rightarrow> vec list result" where
  "get_all_rows db =
     (case get_num_records db of
        Inl e \<Rightarrow> Inl e
      | Inr num_records \<Rightarrow> memmap_r (db_file db) num_records 0)"

subsection \<open>Index files\<close>

text \<open>\<^verbatim>\<open>str\<close> of a non-negative integer: its decimal digits.\<close>

definition digit_char :: "nat \<Rightarrow> char" where
  "digit_char d = char_of (48 + d)"

fun str_nat :: "nat \<Rightarrow> string" where
  "str_nat n = (if n < 10 then [digit_char n] else str_nat (n div 10) @ [digit_char (n mod 10)])"

declare str_nat.simps [simp del]

definition posting_name :: "nat \<Rightarrow> string" where
  "posting_name label = str_nat label @ ''.bin''"

definition centroids_name :: string where
  "centroids_name = ''centroids.bin''"

text \<open>A write to an index file uses up one of the writes the device accepts.\<close>

definition use_write :: "vecdb \<Rightarrow> vecdb result" where
  "use_write db =
     (case writes_left db of
        None \<Rightarrow> Inr db
      | Some 0 \<Rightarrow> Inl OSError
      | Some (Suc k) \<Rightarrow> Inr (db\<lparr>writes_left := Some k\<rparr>))"

text \<open>
  Modelled from the spec: \<^verbatim>\<open>write_file_records\<close> of the module \<^verbatim>\<open>utils\<close>,
  which is missing from the sources. The spec gives posting lists the interface
  "append-single-id and read-all-ids": the call appends one row id to the named file,
  creating the file when it is not there. It fails when the directory is missing or the
  device refuses the write.
\<close>

definition write_file_records :: "string \<Rightarrow> nat \<Rightarrow> vecdb \<Rightarrow> vecdb \<times> unit result" where
  "write_file_records name v db =
     (case index_dir db of
        None \<Rightarrow> (db, Inl FileNotFoundError)
      | Some dir \<Rightarrow>
          (case use_write db of
             Inl e \<Rightarrow> (db, Inl e)
           | Inr db' \<Rightarrow>
               (case dir name of
                  None \<Rightarrow> (db'\<lparr>index_dir := Some (dir(name \<mapsto> Records [v]))\<rparr>, Inr ())
                | Some (Records vs) \<Rightarrow>
                    (db'\<lparr>index_dir := Some (dir(name \<mapsto> Records (vs @ [v])))\<rparr>, Inr ())
                | Some (Centroids cs) \<Rightarrow> (db, Inl ValueError))))"

text \<open>
  Modelled from the spec: \<^verbatim>\<open>read_file_records_mmap\<close> of \<^verbatim>\<open>utils\<close>, the
  "read-all-ids" operation: the ids of the named file in the order they were appended.
\<close>

definition read_file_records_mmap :: "vecdb \<Rightarrow> string \<Rightarrow> nat list result" where
  "read_file_records_mmap db name =
     (case index_dir db of
        None \<Rightarrow> Inl FileNotFoundError
      | Some dir \<Rightarrow>
          (case dir name of
             None \<Rightarrow> Inl FileNotFoundError
           | Some (Records vs) \<Rightarrow> Inr vs
           | Some (Centroids cs) \<Rightarrow> Inl ValueError))"

text \<open>
  Modelled from the spec: \<^verbatim>\<open>write_file_centroids\<close> of \<^verbatim>\<open>utils\<close>: the
  centroid file holds the "ordered sequence of C vectors, position = centroid id"; the
  call writes the whole sequence, replacing the file.
\<close>

definition write_file_centroids :: "string \<Rightarrow> vec list \<Rightarrow> vecdb \<Rightarrow> vecdb \<times> unit result" where
  "write_file_centroids name centroids db =
     (case index_dir db of
        None \<Rightarrow> (db, Inl FileNotFoundError)
      | Some dir \<Rightarrow>
          (case use_write db of
             Inl e \<Rightarrow> (db, Inl e)
           | Inr db' \<Rightarrow> (db'\<lparr>index_dir := Some (dir(name \<mapsto> Centroids centroids))\<rparr>, Inr ())))"

text \<open>
  Modelled from the spec: \<^verbatim>\<open>read_file_centroids_with_memap\<close> of \<^verbatim>\<open>utils\<close>:
  the centroids of the file, in their order.
\<close>

definition read_file_centroids_with_memap :: "vecdb \<Rightarrow> string \<Rightarrow> vec list result" where
  "read_file_centroids_with_memap db name =
     (case index_dir db of
        None \<Rightarrow> Inl FileNotFoundError
      | Some dir \<Rightarrow>
          (case dir name of
             None \<Rightarrow> Inl FileNotFoundError
           | Some (Centroids cs) \<Rightarrow> Inr cs
           | Some (Records vs) \<Rightarrow> Inl ValueError))"

subsection \<open>Scores and selection\<close>

text \<open>
  \<^verbatim>\<open>_cal_score\<close>: \<^verbatim>\<open>np.dot\<close> raises \<open>ValueError\<close> on vectors of
  different lengths; nothing else in the body raises.
\<close>

definition cal_score :: "'s numerics \<Rightarrow> vec \<Rightarrow> vec \<Rightarrow> 's result" where
  "cal_score A vec1 vec2 =
     (if length vec1 \<noteq> length vec2 then Inl ValueError
      else Inr (np_div A (np_dot A vec1 vec2) (np_mul A (np_norm A vec1) (np_norm A vec2))))"

text \<open>
  \<^verbatim>\<open>_vectorized_cal_score\<close> on the rows \<open>vec1\<close> and the vector \<open>vec2\<close>: one
  score per row. An array without rows is one-dimensional and empty, and
  \<^verbatim>\<open>np.dot\<close> rejects it, as it rejects rows of another length than \<open>vec2\<close>.
\<close>

definition vectorized_cal_score :: "'s numerics \<Rightarrow> vec list \<Rightarrow> vec \<Rightarrow> 's list result" where
  "vectorized_cal_score A vec1 vec2 =
     (if vec1 = [] \<or> (\<exists>r \<in> set vec1. length r \<noteq> length vec2) then Inl ValueError
      else
        (let norm_vec2 = np_norm A vec2
         in Inr (map (\<lambda>r. np_div A (np_dot A r vec2) (np_mul A (np_norm A r) norm_vec2)) vec1)))"

text \<open>
  \<^verbatim>\<open>heapq.nlargest(n, iterable, key)\<close>, which the library documents as
  \<^verbatim>\<open>sorted(iterable, key=key, reverse=True)[:n]\<close>: descending by key, elements
  with equal keys in their order in the input.
\<close>

definition heapq_nlargest :: "int \<Rightarrow> ('a \<Rightarrow> 'k::linorder) \<Rightarrow> 'a list \<Rightarrow> 'a list" where
  "heapq_nlargest n key xs = take (nat n) (rev (sort_key key (rev xs)))"

text \<open>
  \<^verbatim>\<open>_get_top_centroids\<close>. The scores come back squeezed: with exactly one centroid
  they are a 0-dimensional array, over which \<^verbatim>\<open>zip\<close> cannot iterate. The pairs
  \<open>(score, position)\<close> are compared as tuples.
\<close>

definition get_top_centroids ::
  "('s::linorder) numerics \<Rightarrow> vecdb \<Rightarrow> vec \<Rightarrow> nat \<Rightarrow> ('s \<times> nat) list result" where
  "get_top_centroids A db query k =
     (case read_file_centroids_with_memap db centroids_name of
        Inl e \<Rightarrow> Inl e
      | Inr centroids_data \<Rightarrow>
          (case vectorized_cal_score A centroids_data query of
             Inl e \<Rightarrow> Inl e
           | Inr scores \<Rightarrow>
               if length scores = 1 then Inl TypeError
               else
                 (let heap = zip scores [0..<length centroids_data]
                  in Inr (heapq_nlargest (int k) (\<lambda>x. x) heap))))"

subsection \<open>Retrieval\<close>

text \<open>The loop over the chosen centroids: the first posting list that cannot be read raises.\<close>

fun read_postings :: "vecdb \<Rightarrow> nat list \<Rightarrow> nat list list result" where
  "read_postings db [] = Inr []"
| "read_postings db (c # cs) =
     (case read_file_records_mmap db (posting_name c) of
        Inl e \<Rightarrow> Inl e
      | Inr ids \<Rightarrow>
          (case read_postings db cs of
             Inl e \<Rightarrow> Inl e
           | Inr rest \<Rightarrow> Inr (ids # rest)))"

definition n_probs_of :: "nat \<Rightarrow> nat" where
  "n_probs_of num_records =
     (if num_records \<le> 10 * 10 ^ 6 then 12
      else if num_records = 15 * 10 ^ 6 then 10
      else 5)"

text \<open>
  \<^verbatim>\<open>retrieve\<close>, with the query already squeezed to one dimension. The rows come
  from \<^verbatim>\<open>get_rows\<close>, so they are \<open>DIMENSION\<close> wide, and \<^verbatim>\<open>np.dot\<close> accepts
  a query of that length only. \<^verbatim>\<open>zip\<close> stops at the shorter of its arguments.
\<close>

definition retrieve ::
  "('s::linorder) numerics \<Rightarrow> vecdb \<Rightarrow> vec \<Rightarrow> int \<Rightarrow> nat list result" where
  "retrieve A db query top_k =
     (case get_num_records db of
        Inl e \<Rightarrow> Inl e
      | Inr num_records \<Rightarrow>
          (case get_top_centroids A db query (n_probs_of num_records) of
             Inl e \<Rightarrow> Inl e
           | Inr top_centroids \<Rightarrow>
               (let query_norm = np_norm A query
                in case read_postings db (map snd top_centroids) of
                     Inl e \<Rightarrow> Inl e
                   | Inr postings \<Rightarrow>
                       (let ids = concat postings;
                            data = get_rows db (map int ids)
                        in if length query \<noteq> DIMENSION then Inl ValueError
                           else
                             (let scores =
                                    map (\<lambda>r. np_div A (np_dot A r query)
                                                (np_mul A (np_norm A r) query_norm)) data;
                                  results = zip scores ids;
                                  results = heapq_nlargest top_k fst results
                              in Inr (map snd results))))))"

subsection \<open>Building the index\<close>

text \<open>\<^verbatim>\<open>np.unique\<close>: the distinct labels, ascending.\<close>

definition np_unique :: "nat list \<Rightarrow> nat list" where
  "np_unique labels = sort (remdups labels)"

text \<open>\<^verbatim>\<open>np.where(labels == label)[0]\<close>: the positions of the label, ascending.\<close>

definition np_where_eq :: "nat list \<Rightarrow> nat \<Rightarrow> nat list" where
  "np_where_eq labels label = filter (\<lambda>i. labels ! i = label) [0..<length labels]"

text \<open>The inner loop: one append per row id.\<close>

fun write_indices :: "string \<Rightarrow> nat list \<Rightarrow> vecdb \<Rightarrow> vecdb \<times> unit result" where
  "write_indices name [] db = (db, Inr ())"
| "write_indices name (i # indices) db =
     (case write_file_records name i db of
        (db', Inl e) \<Rightarrow> (db', Inl e)
      | (db', Inr u) \<Rightarrow> write_indices name indices db')"

text \<open>The outer loop, over the distinct labels.\<close>

fun write_labels :: "nat list \<Rightarrow> nat list \<Rightarrow> vecdb \<Rightarrow> vecdb \<times> unit result" where
  "write_labels labels [] db = (db, Inr ())"
| "write_labels labels (label # rest) db =
     (case write_indices (posting_name label) (np_where_eq labels label) db of
        (db', Inl e) \<Rightarrow> (db', Inl e)
      | (db', Inr u) \<Rightarrow> write_labels labels rest db')"

text \<open>
  \<^verbatim>\<open>_build_index\<close>: the centroid count, the clustering of all rows, then the
  directory of the index is removed if it exists and made anew, the posting lists are
  written label by label and the centroids last.
\<close>

definition build_index :: "'m kmeans \<Rightarrow> vecdb \<Rightarrow> vecdb \<times> unit result" where
  "build_index K db =
     (case get_num_records db of
        Inl e \<Rightarrow> (db, Inl e)
      | Inr num_records \<Rightarrow>
          (let db1 = db\<lparr>no_centroids := centroid_count num_records\<rparr>
           in case get_all_rows db1 of
                Inl e \<Rightarrow> (db1, Inl e)
              | Inr training_data \<Rightarrow>
                  (case km_fit K (no_centroids db1) training_data of
                     Inl e \<Rightarrow> (db1, Inl e)
                   | Inr fitted \<Rightarrow>
                       (case get_all_rows db1 of
                          Inl e \<Rightarrow> (db1, Inl e)
                        | Inr all_rows \<Rightarrow>
                            (case km_predict K fitted all_rows of
                               Inl e \<Rightarrow> (db1, Inl e)
                             | Inr labels \<Rightarrow>
                                 (let centroids = km_centers K fitted;
                                      db2 = db1\<lparr>index_dir := Some Map.empty\<rparr>
                                  in case write_labels labels (np_unique labels) db2 of
                                       (db3, Inl e) \<Rightarrow> (db3, Inl e)
                                     | (db3, Inr u) \<Rightarrow>
                                         write_file_centroids centroids_name centroids db3))))))"

subsection \<open>Writing the store\<close>

definition insert_records :: "'m kmeans \<Rightarrow> vec list \<Rightarrow> vecdb \<Rightarrow> vecdb \<times> unit result" where
  "insert_records K rows db =
     (case get_num_records db of
        Inl e \<Rightarrow> (db, Inl e)
      | Inr num_old_records \<Rightarrow>
          (let num_new_records = length rows;
               bytes = (num_old_records + num_new_records) * DIMENSION * ELEMENT_SIZE
           in case db_file db of
                None \<Rightarrow> (db, Inl FileNotFoundError)
              | Some bs \<Rightarrow>
                  (case memmap_open_w bs bytes of
                     (bs', Some e) \<Rightarrow> (db\<lparr>db_file := Some bs'\<rparr>, Inl e)
                   | (bs', None) \<Rightarrow>
                       (case broadcast_rows rows of
                          Inl e \<Rightarrow> (db\<lparr>db_file := Some bs'\<rparr>, Inl e)
                        | Inr data \<Rightarrow>
                            build_index K
                              (db\<lparr>db_file := Some (assign_rows bs' num_old_records data)\<rparr>)))))"




subsection \<open>Rows of a file\<close>

text \<open>The row with id \<open>i\<close> of a file: the \<open>DIMENSION\<close> floats at byte \<open>i * ROW_BYTES\<close>.\<close>

definition row_at :: "byte list \<Rightarrow> nat \<Rightarrow> vec" where
  "row_at bs i = decode_floats (take ROW_BYTES (drop (i * ROW_BYTES) bs))"

text \<open>
  The cosine similarity of two vectors under an arithmetic: the dot product over the
  product of the norms.
\<close>

definition cosine :: "'s numerics \<Rightarrow> vec \<Rightarrow> vec \<Rightarrow> 's" where
  "cosine A a b = np_div A (np_dot A a b) (np_mul A (np_norm A a) (np_norm A b))"

subsection \<open>The index a build leaves\<close>

text \<open>
  The directory after a build that got the labels \<open>labels\<close> and the centroids
  \<open>centroids\<close> from the clustering: one posting file per distinct label, holding the
  row ids with that label in ascending order, and the centroid file.
\<close>

definition built_index :: "nat list \<Rightarrow> vec list \<Rightarrow> (string \<rightharpoonup> index_file)" where
  "built_index labels centroids =
     (map_of (map (\<lambda>l. (posting_name l, Records (np_where_eq labels l))) (np_unique labels)))
       (centroids_name \<mapsto> Centroids centroids)"

text \<open>
  The posting lists of a state partition the row ids below \<open>n\<close>: every list is free of
  duplicates and within the range, and every id of the range is in the list of exactly
  one file.
\<close>

definition posting_lists_partition :: "vecdb \<Rightarrow> nat \<Rightarrow> bool" where
  "posting_lists_partition db n \<longleftrightarrow>
     (\<exists>dir. index_dir db = Some dir
        \<and> (\<forall>name ids. dir name = Some (Records ids) \<longrightarrow> distinct ids \<and> set ids \<subseteq> {0..<n})
        \<and> (\<forall>i<n. \<exists>!name. \<exists>ids. dir name = Some (Records ids) \<and> i \<in> set ids))"

text \<open>What the library's \<^verbatim>\<open>predict\<close> guarantees: one label for every row it is given.\<close>

definition labels_every_row :: "'m kmeans \<Rightarrow> bool" where
  "labels_every_row K \<longleftrightarrow> (\<forall>m X ls. km_predict K m X = Inr ls \<longrightarrow> length ls = length X)"

subsection \<open>The candidates of a retrieval\<close>

text \<open>
  The first half of \<^verbatim>\<open>retrieve\<close> on its own: the ids read from the posting lists of
  the centroids that \<^verbatim>\<open>_get_top_centroids\<close> returns, in the order they are read.
\<close>

definition probed_ids :: "('s::linorder) numerics \<Rightarrow> vecdb \<Rightarrow> vec \<Rightarrow> nat list result" where
  "probed_ids A db query =
     (case get_num_records db of
        Inl e \<Rightarrow> Inl e
      | Inr num_records \<Rightarrow>
          (case get_top_centroids A db query (n_probs_of num_records) of
             Inl e \<Rightarrow> Inl e
           | Inr top_centroids \<Rightarrow>
               (case read_postings db (map snd top_centroids) of
                  Inl e \<Rightarrow> Inl e
                | Inr postings \<Rightarrow> Inr (concat postings))))"

text \<open>
  The ids in the order in which \<^verbatim>\<open>heapq.nlargest\<close> ranks the pairs of a score and an
  id: by descending score, the pairs of one score in their order in the input.
\<close>

definition ranking :: "(nat \<Rightarrow> 'k::linorder) \<Rightarrow> nat list \<Rightarrow> nat list" where
  "ranking score ids = map snd (rev (sort_key fst (rev (zip (map score ids) ids))))"

subsection \<open>A clustering and a store for the examples\<close>

text \<open>
  A clustering to run the examples with: the centers are the first \<open>n_clusters\<close>
  distinct rows, and the label of a row is the position of its own value among the
  centers. This is what k-means arrives at on data that has exactly \<open>n_clusters\<close>
  distinct rows. As the library does, it rejects fewer samples than clusters.
\<close>

fun index_of :: "'a list \<Rightarrow> 'a \<Rightarrow> nat" where
  "index_of [] x = 0"
| "index_of (y # ys) x = (if x = y then 0 else Suc (index_of ys x))"

definition km_distinct :: "vec list kmeans" where
  "km_distinct =
     \<lparr>km_fit = (\<lambda>c X. if c = 0 \<or> length X < c then Inl ValueError
                       else Inr (take c (remdups X))),
      km_predict = (\<lambda>cs X. Inr (map (\<lambda>x. min (index_of cs x) (length cs - 1)) X)),
      km_centers = (\<lambda>cs. cs)\<rparr>"

text \<open>A state with an empty database file, no index directory and no limit on writes.\<close>

definition empty_store :: vecdb where
  "empty_store = \<lparr>db_file = Some [], index_dir = None, no_centroids = 0, writes_left = None\<rparr>"

text \<open>The float32 \<open>1.0\<close>, and the vector with \<open>1.0\<close> in every component.\<close>

definition f32_one :: f32 where
  "f32_one = 0x3F800000"

definition ones :: vec where
  "ones = replicate DIMENSION f32_one"

text \<open>The vector with \<open>2.0\<close> in every component, and the zero vector.\<close>

definition twos :: vec where
  "twos = replicate DIMENSION 0x40000000"

definition zeros :: vec where
  "zeros = replicate DIMENSION 0"

text \<open>
  An arithmetic to run the examples with: the value of a finite float32, and the four
  operations carried out exactly on these values. It agrees with floating-point
  arithmetic wherever the latter does not round; the examples use it on vectors whose
  scores tie exactly in both.
\<close>

definition f32_value :: "f32 \<Rightarrow> real" where
  "f32_value w =
     (let e = unat (take_bit 8 (drop_bit 23 w));
          m = unat (take_bit 23 w);
          mag = (if e = 0 then real m / 2 ^ 149
                 else if e < 127 then (1 + real m / 2 ^ 23) / 2 ^ (127 - e)
                 else (1 + real m / 2 ^ 23) * 2 ^ (e - 127))
      in if bit w 31 then - mag else mag)"

definition exact_arith :: "real numerics" where
  "exact_arith =
     \<lparr>np_dot = (\<lambda>a b. sum_list (map2 (\<lambda>x y. f32_value x * f32_value y) a b)),
      np_norm = (\<lambda>a. sqrt (sum_list (map (\<lambda>x. f32_value x * f32_value x) a))),
      np_mul = (\<lambda>x y. x * y),
      np_div = (\<lambda>x y. x / y)\<rparr>"

text \<open>A store of two rows, the vector of ones and the vector of twos, with no index yet.\<close>

definition two_row_store :: vecdb where
  "two_row_store = empty_store\<lparr>db_file := Some (rows_bytes [ones, twos])\<rparr>"


text \<open>A store of three rows: ones, twos, ones.\<close>

definition three_row_store :: vecdb where
  "three_row_store = empty_store\<lparr>db_file := Some (rows_bytes [ones, twos, ones])\<rparr>"





section \<open>Properties\<close>

subsection \<open>Integer square root\<close>

lemma int_sqrt_step:
  "n \<noteq> 0 \<Longrightarrow> int_sqrt n =
     (if (2 * int_sqrt (n div 4) + 1) * (2 * int_sqrt (n div 4) + 1) \<le> n
      then 2 * int_sqrt (n div 4) + 1 else 2 * int_sqrt (n div 4))"
  by (subst int_sqrt.simps) (simp add: Let_def)

lemma int_sqrt_0: "int_sqrt 0 = 0"
  by (subst int_sqrt.simps) simp

lemma int_sqrt_bounds:
  "int_sqrt n * int_sqrt n \<le> n \<and> n < (int_sqrt n + 1) * (int_sqrt n + 1)"
proof (induction n rule: int_sqrt.induct)
  case (1 n)
  show ?case
  proof (cases "n = 0")
    case True
    then show ?thesis by (simp add: int_sqrt_0)
  next
    case False
    define q where "q = int_sqrt (n div 4)"
    from 1 False have IH: "q * q \<le> n div 4 \<and> n div 4 < (q + 1) * (q + 1)"
      by (simp add: q_def)
    have lo: "(2 * q) * (2 * q) \<le> n"
    proof -
      have "4 * (q * q) \<le> 4 * (n div 4)" using IH by simp
      also have "\<dots> \<le> n" by simp
      finally show ?thesis by (simp add: algebra_simps)
    qed
    have hi: "n < (2 * q + 2) * (2 * q + 2)"
    proof -
      have "n div 4 + 1 \<le> (q + 1) * (q + 1)" using IH by simp
      then have "4 * (n div 4 + 1) \<le> 4 * ((q + 1) * (q + 1))" by simp
      moreover have "n < 4 * (n div 4 + 1)" by presburger
      ultimately show ?thesis by (simp add: algebra_simps)
    qed
    have eq: "int_sqrt n = (if (2 * q + 1) * (2 * q + 1) \<le> n then 2 * q + 1 else 2 * q)"
      using False by (simp add: int_sqrt_step q_def)
    show ?thesis
    proof (cases "(2 * q + 1) * (2 * q + 1) \<le> n")
      case True
      then show ?thesis using hi eq by simp
    next
      case False
      then show ?thesis using lo eq by (simp add: not_le)
    qed
  qed
qed

lemma int_sqrt_unique:
  assumes "r * r \<le> n" and "n < (r + 1) * (r + 1)"
  shows "int_sqrt n = r"
proof (rule ccontr)
  let ?s = "int_sqrt n"
  assume ne: "?s \<noteq> r"
  have b: "?s * ?s \<le> n" "n < (?s + 1) * (?s + 1)"
    using int_sqrt_bounds [of n] by simp_all
  show False
  proof (cases "?s < r")
    case True
    then have "?s + 1 \<le> r" by simp
    then have "(?s + 1) * (?s + 1) \<le> r * r" by (intro mult_le_mono)
    with b assms show False by simp
  next
    case False
    with ne have "r + 1 \<le> ?s" by simp
    then have "(r + 1) * (r + 1) \<le> ?s * ?s" by (intro mult_le_mono)
    with b assms show False by simp
  qed
qed

lemma int_sqrt_15000000: "int_sqrt 15000000 = 3872"
  by (rule int_sqrt_unique) simp_all

lemma int_sqrt_15000001: "int_sqrt 15000001 = 3872"
  by (rule int_sqrt_unique) simp_all

lemma int_sqrt_20000000: "int_sqrt 20000000 = 4472"
  by (rule int_sqrt_unique) simp_all

lemma int_sqrt_mono: "m \<le> n \<Longrightarrow> int_sqrt m \<le> int_sqrt n"
proof (rule ccontr)
  assume mn: "m \<le> n" and "\<not> int_sqrt m \<le> int_sqrt n"
  then have "int_sqrt n + 1 \<le> int_sqrt m" by simp
  then have "(int_sqrt n + 1) * (int_sqrt n + 1) \<le> int_sqrt m * int_sqrt m"
    by (intro mult_le_mono)
  also have "\<dots> \<le> m" using int_sqrt_bounds [of m] by simp
  finally have "(int_sqrt n + 1) * (int_sqrt n + 1) \<le> n" using mn by simp
  with int_sqrt_bounds [of n] show False by simp
qed

subsection \<open>C6: the centroid count policy\<close>

text \<open>
  C6, as stated, fails: the count is not monotonic in the number of records. At exactly
  15,000,000 records the multiplier is 5 and the count is 19360; one record more and the
  multiplier is 2 again, the count 7744.
\<close>

theorem centroid_count_not_monotonic:
  "(15000000::nat) \<le> 15000001 \<and> centroid_count 15000001 < centroid_count 15000000"
  by (simp add: centroid_count_def int_sqrt_15000000 int_sqrt_15000001)

text \<open>
  C6, amended: for every record count below \<open>2^52\<close>, where the float64 root of the
  source truncates to the integer square root, the count is twice the integer square root
  of the record count unless the record count is exactly 15,000,000 or exactly
  20,000,000; at these two sizes, and only there, the multipliers 5 and 6 apply (counts
  19360 and 26832). Away from the two sizes the count is monotonic.
\<close>

theorem centroid_count_tiers:
  "(n < 2 ^ 52 \<and> n \<noteq> 15000000 \<and> n \<noteq> 20000000 \<longrightarrow>
      centroid_count n = 2 * int_sqrt n
      \<and> int_sqrt n * int_sqrt n \<le> n \<and> n < (int_sqrt n + 1) * (int_sqrt n + 1))
   \<and> (m \<le> n \<and> n < 2 ^ 52 \<and> m \<notin> {15000000, 20000000} \<and> n \<notin> {15000000, 20000000} \<longrightarrow>
      centroid_count m \<le> centroid_count n)
   \<and> centroid_count 15000000 = 5 * 3872
   \<and> centroid_count 20000000 = 6 * 4472"
  using int_sqrt_bounds [of n] int_sqrt_mono [of m n]
  by (simp add: centroid_count_def int_sqrt_15000000 int_sqrt_20000000)

theorem centroid_count_tiers_witness:
  "(100::nat) < 2 ^ 52 \<and> (100::nat) \<noteq> 15000000 \<and> (100::nat) \<noteq> 20000000
   \<and> (64::nat) \<le> 100 \<and> (64::nat) \<notin> {15000000, 20000000} \<and> (100::nat) \<notin> {15000000, 20000000}
   \<and> centroid_count 100 = 2 * int_sqrt 100
   \<and> centroid_count 64 \<le> centroid_count 100"
  using centroid_count_tiers [of 100 64] by simp

subsection \<open>Bytes, rows and the accessors\<close>

lemma f32_bytes_roundtrip:
  "f32_of_bytes (ucast w) (ucast (drop_bit 8 w)) (ucast (drop_bit 16 w)) (ucast (drop_bit 24 w)) = w"
  unfolding f32_of_bytes_def
proof (rule bit_word_eqI)
  fix n :: nat
  assume "n < LENGTH(32)"
  then have n: "n < 32" by simp
  consider "n < 8" | "8 \<le> n" "n < 16" | "16 \<le> n" "n < 24" | "24 \<le> n"
    by linarith
  then show "bit (ucast (ucast w :: byte) OR push_bit 8 (ucast (ucast (drop_bit 8 w) :: byte))
        OR push_bit 16 (ucast (ucast (drop_bit 16 w) :: byte))
        OR push_bit 24 (ucast (ucast (drop_bit 24 w) :: byte)) :: f32) n = bit w n"
    using n by cases (auto simp: bit_simps)
qed

lemma decode_floats_f32: "decode_floats (f32_to_bytes w @ bs) = w # decode_floats bs"
  by (simp add: f32_to_bytes_def f32_bytes_roundtrip)

lemma decode_floats_row: "decode_floats (row_bytes v @ bs) = v @ decode_floats bs"
  by (induction v) (simp_all add: row_bytes_def decode_floats_f32)

lemma length_row_bytes: "length (row_bytes v) = 4 * length v"
  by (induction v) (simp_all add: row_bytes_def f32_to_bytes_def)

lemma length_decode_floats: "length (decode_floats bs) = length bs div 4"
  by (induction bs rule: decode_floats.induct) simp_all

lemma decode_floats_take: "decode_floats (take (4 * k) bs) = take k (decode_floats bs)"
proof (induction bs arbitrary: k rule: decode_floats.induct)
  case (1 b0 b1 b2 b3 bs)
  show ?case
  proof (cases k)
    case 0
    then show ?thesis by simp
  next
    case (Suc j)
    have "take (4 * Suc j) (b0 # b1 # b2 # b3 # bs) = b0 # b1 # b2 # b3 # take (4 * j) bs"
      by (simp add: take_Cons')
    then show ?thesis using 1 [of j] Suc by simp
  qed
qed (simp_all add: take_Cons')

lemma decode_floats_drop: "decode_floats (drop (4 * k) bs) = drop k (decode_floats bs)"
proof (induction bs arbitrary: k rule: decode_floats.induct)
  case (1 b0 b1 b2 b3 bs)
  show ?case
  proof (cases k)
    case 0
    then show ?thesis by simp
  next
    case (Suc j)
    have "drop (4 * Suc j) (b0 # b1 # b2 # b3 # bs) = drop (4 * j) bs"
      by (simp add: drop_Cons')
    then show ?thesis using 1 [of j] Suc by simp
  qed
qed (auto simp add: drop_Cons' )


lemma ROW_BYTES_280: "ROW_BYTES = 280"
  by (simp add: ROW_BYTES_def DIMENSION_def ELEMENT_SIZE_def)

lemma decode_take_row: "decode_floats (take 280 bs) = take 70 (decode_floats bs)"
  using decode_floats_take [of 70 bs] by simp

lemma decode_drop_row: "decode_floats (drop 280 bs) = drop 70 (decode_floats bs)"
  using decode_floats_drop [of 70 bs] by simp

lemma length_row_at: "(i + 1) * 280 \<le> length bs \<Longrightarrow> length (row_at bs i) = 70"
  by (simp add: row_at_def ROW_BYTES_280 length_decode_floats)

lemma chunks_Nil: "chunks n [] = []"
  by (subst chunks.simps) simp

lemma chunks_step: "n > 0 \<Longrightarrow> xs \<noteq> [] \<Longrightarrow> chunks n xs = take n xs # chunks n (drop n xs)"
  by (subst chunks.simps) simp

lemma window_rows:
  "(s + k) * 280 \<le> length bs \<Longrightarrow>
   chunks 70 (decode_floats (take (k * 280) (drop (s * 280) bs))) = map (row_at bs) [s..<s + k]"
proof (induction k arbitrary: s)
  case 0
  then show ?case by (simp add: chunks_Nil)
next
  case (Suc k)
  let ?w = "take (Suc k * 280) (drop (s * 280) bs)"
  have len: "length ?w = Suc k * 280" using Suc.prems by simp
  then have ne: "decode_floats ?w \<noteq> []"
    using length_decode_floats [of ?w] by auto
  have hd: "take 70 (decode_floats ?w) = row_at bs s"
    by (simp add: row_at_def ROW_BYTES_280 decode_take_row [symmetric] min_def)
  have "drop 280 ?w = take (k * 280) (drop (Suc s * 280) bs)"
    by (simp add: drop_take add.commute)
  then have tl: "drop 70 (decode_floats ?w) = decode_floats (take (k * 280) (drop (Suc s * 280) bs))"
    by (simp add: decode_drop_row [symmetric])
  have step: "chunks 70 (decode_floats ?w)
      = take 70 (decode_floats ?w) # chunks 70 (drop 70 (decode_floats ?w))"
    using ne by (intro chunks_step) simp_all
  have ih: "chunks 70 (decode_floats (take (k * 280) (drop (Suc s * 280) bs)))
      = map (row_at bs) [Suc s..<Suc s + k]"
    using Suc.prems by (intro Suc.IH) simp
  have upt: "[s..<s + Suc k] = s # [Suc s..<Suc s + k]"
    by (simp del: upt_Suc add: upt_conv_Cons)
  show ?case
    unfolding step hd tl ih upt by simp
qed


lemma in_store_iff:
  "0 \<le> i \<Longrightarrow> (i < int (length bs div 280)) = ((nat i + 1) * 280 \<le> length (bs::byte list))"
  by (cases "length bs div 280 = 0") (auto simp: less_eq_div_iff_mult_less_eq nat_less_iff)

lemma memmap_r_ok:
  assumes "0 \<le> off" and "0 < n" and "off + int (n * 280) \<le> int (length bs)"
  shows "memmap_r (Some bs) n off
     = Inr (chunks 70 (decode_floats (take (n * 280) (drop (nat off) bs))))"
proof -
  define m where "m = off mod 4096"
  have m: "0 \<le> m" "m \<le> off"
    using assms(1) by (simp_all add: m_def zmod_le_nonneg_dividend)
  show ?thesis
    using m assms
    by (simp add: memmap_r_def mmap_check_def DIMENSION_def ELEMENT_SIZE_def
        ALLOCATIONGRANULARITY_def Let_def m_def [symmetric] mult.commute)
qed

lemma memmap_r_negative:
  assumes "off < 0"
  shows "memmap_r (Some bs) n off = Inl OverflowError"
proof -
  define m where "m = off mod 4096"
  have m: "0 \<le> m" by (simp add: m_def)
  show ?thesis
    using m assms
    by (simp add: memmap_r_def mmap_check_def DIMENSION_def ELEMENT_SIZE_def
        ALLOCATIONGRANULARITY_def Let_def m_def [symmetric])
qed

lemma memmap_r_beyond:
  assumes "0 \<le> off" and "0 < n" and "int (length bs) < off + int (n * 280)"
  shows "memmap_r (Some bs) n off = Inl ValueError"
proof -
  define m where "m = off mod 4096"
  have m: "0 \<le> m" "m \<le> off"
    using assms(1) by (simp_all add: m_def zmod_le_nonneg_dividend)
  show ?thesis
    using m assms
    by (simp add: memmap_r_def mmap_check_def DIMENSION_def ELEMENT_SIZE_def
        ALLOCATIONGRANULARITY_def Let_def m_def [symmetric])
qed

lemma memmap_r_no_rows:
  "memmap_r (Some bs) 0 0 = (if bs = [] then Inl ValueError else Inr [])"
  by (simp add: memmap_r_def mmap_check_def ALLOCATIONGRANULARITY_def chunks_Nil)

lemma row_offset: "0 \<le> i \<Longrightarrow> nat (i * int DIMENSION * int ELEMENT_SIZE) = nat i * 280"
  by (simp add: DIMENSION_def ELEMENT_SIZE_def nat_mult_distrib)

lemma get_one_row_in_range:
  assumes "db_file db = Some bs" and "0 \<le> i" and "i < int (length bs div 280)"
  shows "get_one_row db i = NdArray (row_at bs (nat i))"
proof -
  have le: "(nat i + 1) * 280 \<le> length bs"
    using assms in_store_iff by blast
  let ?off = "i * int DIMENSION * int ELEMENT_SIZE"
  have off: "nat ?off = nat i * 280" using assms(2) by (rule row_offset)
  have off0: "0 \<le> ?off" using assms(2) by (simp add: DIMENSION_def ELEMENT_SIZE_def)
  have "?off + int (1 * 280) \<le> int (length bs)"
    using le assms(2) by (simp add: DIMENSION_def ELEMENT_SIZE_def nat_le_iff)
  then have "memmap_r (Some bs) 1 ?off
      = Inr (chunks 70 (decode_floats (take (1 * 280) (drop (nat ?off) bs))))"
    using off0 by (intro memmap_r_ok) simp_all
  moreover have "chunks 70 (decode_floats (take 280 (drop (nat i * 280) bs))) = [row_at bs (nat i)]"
    using window_rows [of "nat i" 1 bs] le by simp
  ultimately have "memmap_r (Some bs) 1 ?off = Inr [row_at bs (nat i)]"
    by (simp add: off)
  then show ?thesis
    using assms(1) by (simp add: get_one_row_def Let_def)
qed

lemma get_one_row_negative:
  assumes "db_file db = Some bs" and "i < 0"
  shows "get_one_row db i = ErrorString OverflowError"
proof -
  let ?off = "i * int DIMENSION * int ELEMENT_SIZE"
  have "?off < 0" using assms(2) by (simp add: DIMENSION_def ELEMENT_SIZE_def)
  then have "memmap_r (Some bs) 1 ?off = Inl OverflowError"
    by (rule memmap_r_negative)
  then show ?thesis
    using assms(1) by (simp add: get_one_row_def Let_def)
qed

lemma get_one_row_beyond:
  assumes "db_file db = Some bs" and "int (length bs div 280) \<le> i"
  shows "get_one_row db i = ErrorString ValueError"
proof -
  have i0: "0 \<le> i" using assms(2) by linarith
  have gt: "length bs < (nat i + 1) * 280"
    using assms(2) i0 in_store_iff [of i bs] by auto
  let ?off = "i * int DIMENSION * int ELEMENT_SIZE"
  have off0: "0 \<le> ?off" using i0 by (simp add: DIMENSION_def ELEMENT_SIZE_def)
  have "int (length bs) < ?off + int (1 * 280)"
    using gt i0 by (simp add: DIMENSION_def ELEMENT_SIZE_def nat_less_iff)
  then have "memmap_r (Some bs) 1 ?off = Inl ValueError"
    using off0 by (intro memmap_r_beyond) simp_all
  then show ?thesis
    using assms(1) by (simp add: get_one_row_def Let_def)
qed

lemma get_one_row_missing:
  "db_file db = None \<Longrightarrow> get_one_row db i = ErrorString FileNotFoundError"
  by (simp add: get_one_row_def memmap_r_def Let_def)

lemma get_all_rows_eq:
  assumes "db_file db = Some bs" and "bs \<noteq> []"
  shows "get_all_rows db = Inr (map (row_at bs) [0..<length bs div 280])"
proof (cases "length bs div 280 = 0")
  case True
  then show ?thesis
    using assms by (simp add: get_all_rows_def get_num_records_def memmap_r_no_rows
        DIMENSION_def ELEMENT_SIZE_def)
next
  case False
  let ?n = "length bs div 280"
  have le: "?n * 280 \<le> length bs" by simp
  have "memmap_r (Some bs) ?n 0
      = Inr (chunks 70 (decode_floats (take (?n * 280) (drop (nat 0) bs))))"
    using False le by (intro memmap_r_ok) simp_all
  moreover have "chunks 70 (decode_floats (take (?n * 280) bs)) = map (row_at bs) [0..<?n]"
    using window_rows [of 0 ?n bs] le by simp
  ultimately show ?thesis
    using assms(1)
    by (simp add: get_all_rows_def get_num_records_def DIMENSION_def ELEMENT_SIZE_def)
qed

lemma get_all_rows_empty_file:
  "db_file db = Some [] \<Longrightarrow> get_all_rows db = Inl ValueError"
  by (simp add: get_all_rows_def get_num_records_def memmap_r_no_rows
        DIMENSION_def ELEMENT_SIZE_def)

lemma length_chunks:
  "0 < n \<Longrightarrow> length xs mod n = 0 \<Longrightarrow> length (chunks n xs) = length xs div n"
proof (induction n xs rule: chunks.induct)
  case (1 n xs)
  show ?case
  proof (cases "xs = []")
    case True
    then show ?thesis by (simp add: chunks_Nil)
  next
    case False
    with 1 have len: "n \<le> length xs"
      by (metis length_0_conv mod_less not_le)
    have "length (drop n xs) mod n = 0"
      using 1 len by (simp add: mod_eq_0_iff_dvd dvd_diff_nat)
    then have "length (chunks n (drop n xs)) = length (drop n xs) div n"
      using 1 False by simp
    then have "length (chunks n xs) = Suc ((length xs - n) div n)"
      using 1(2) False by (simp add: chunks_step)
    also have "\<dots> = length xs div n"
      using len 1(2) by (simp add: le_div_geq)
    finally show ?thesis .
  qed
qed

lemma block_window:
  assumes "0 \<le> s" and "s \<le> e"
  shows "take (nat ((e - s + 1) * int DIMENSION * int ELEMENT_SIZE))
            (drop (nat (s * int DIMENSION * int ELEMENT_SIZE)) bs)
       = take (nat (e - s + 1) * 280) (drop (nat s * 280) bs)"
  using assms row_offset [of "e - s + 1"] row_offset [of s] by simp

lemma block_ok:
  assumes "0 \<le> s" and "s \<le> e" and "e < int (length bs div 280)"
  shows "frombuffer_reshape (take (nat (e - s + 1) * 280) (drop (nat s * 280) bs))
       = Inr (map (row_at bs) [nat s..<nat e + 1])"
proof -
  let ?k = "nat (e - s + 1)"
  let ?w = "take (?k * 280) (drop (nat s * 280) bs)"
  have e0: "0 \<le> e" using assms by simp
  have "(nat e + 1) * 280 \<le> length bs"
    using assms(3) e0 in_store_iff by blast
  moreover have se: "nat s + ?k = nat e + 1" using assms by simp
  ultimately have le: "(nat s + ?k) * 280 \<le> length bs" by simp
  then have len: "length ?w = ?k * 280" by simp
  have dlen: "length (decode_floats ?w) = ?k * 70"
    unfolding length_decode_floats len by simp
  have "chunks 70 (decode_floats ?w) = map (row_at bs) [nat s..<nat s + ?k]"
    using le by (rule window_rows)
  then show ?thesis
    unfolding frombuffer_reshape_def se
    by (simp only: len dlen) (simp add: DIMENSION_def ELEMENT_SIZE_def)
qed

lemma block_bad:
  assumes "0 \<le> s" and "s \<le> e" and "int (length bs div 280) \<le> e"
  shows "case frombuffer_reshape (take (nat (e - s + 1) * 280) (drop (nat s * 280) bs)) of
           Inl err \<Rightarrow> True
         | Inr block \<Rightarrow> length block < nat (e - s + 1)"
proof -
  let ?k = "nat (e - s + 1)"
  let ?w = "take (?k * 280) (drop (nat s * 280) bs)"
  have e0: "0 \<le> e" using assms by simp
  have "length bs < (nat e + 1) * 280"
    using assms(3) e0 in_store_iff [of e bs] by auto
  moreover have se: "nat s + ?k = nat e + 1" using assms by simp
  ultimately have "length bs < (nat s + ?k) * 280" by simp
  moreover have "0 < ?k" using assms by simp
  ultimately have len: "length ?w < ?k * 280" by auto
  have dlen: "length (decode_floats ?w) < ?k * 70"
    using len unfolding length_decode_floats by linarith
  show ?thesis
  proof (cases "frombuffer_reshape ?w")
    case (Inl a)
    then show ?thesis by simp
  next
    case (Inr block)
    then have m: "length (decode_floats ?w) mod 70 = 0"
      and b: "block = chunks 70 (decode_floats ?w)"
      by (auto simp: frombuffer_reshape_def DIMENSION_def split: if_splits)
    have "length block = length (decode_floats ?w) div 70"
      using m unfolding b by (intro length_chunks) simp_all
    also have "\<dots> < ?k" using dlen by (simp add: less_mult_imp_div_less)
    finally show ?thesis using Inr by simp
  qed
qed


lemma read_ranges_Cons_ok:
  assumes "0 \<le> s" and "s \<le> e" and "e < int (length bs div 280)"
  shows "read_ranges bs ((s, e) # rs)
       = (case read_ranges bs rs of
            Inl err \<Rightarrow> Inl err
          | Inr vs \<Rightarrow> Inr (map (row_at bs) [nat s..<nat e + 1] @ vs))"
proof -
  have off: "(s * int DIMENSION * int ELEMENT_SIZE < 0) = False"
    using assms(1) by (simp add: DIMENSION_def ELEMENT_SIZE_def)
  have "nat e + 1 - nat s = nat (e - s + 1)" using assms by linarith
  then have len: "length [nat s..<nat e + 1] = nat (e - s + 1)"
    by (simp only: length_upt)
  have tk: "take (nat (e - s + 1)) (map (row_at bs) [nat s..<nat e + 1])
      = map (row_at bs) [nat s..<nat e + 1]"
    by (metis len length_map order_refl take_all)
  show ?thesis
    by (simp only: read_ranges.simps Let_def block_window [OF assms(1,2)] block_ok [OF assms]
        off if_False sum.case length_map len less_irrefl tk)
qed

lemma read_ranges_Cons_bad:
  assumes "s \<le> e" and "s < 0 \<or> int (length bs div 280) \<le> e"
  shows "isl (read_ranges bs ((s, e) # rs))"
proof (cases "s < 0")
  case True
  then have "s * int DIMENSION * int ELEMENT_SIZE < 0"
    by (simp add: DIMENSION_def ELEMENT_SIZE_def)
  then show ?thesis by (simp add: Let_def)
next
  case False
  then have s0: "0 \<le> s" and big: "int (length bs div 280) \<le> e" using assms(2) by auto
  have off: "\<not> s * int DIMENSION * int ELEMENT_SIZE < 0"
    using s0 by (simp add: DIMENSION_def ELEMENT_SIZE_def)
  show ?thesis
    using off block_bad [OF s0 assms(1) big]
    by (auto simp: Let_def block_window [OF s0 assms(1)] split: sum.splits)
qed

lemma read_ranges_group:
  assumes "start \<le> prev"
  shows "(0 \<le> start \<and> prev < int (length bs div 280)
            \<and> (\<forall>x \<in> set ids. 0 \<le> x \<and> x < int (length bs div 280))
          \<longrightarrow> read_ranges bs (group_ranges start prev ids)
              = Inr (map (row_at bs) [nat start..<nat prev + 1] @ map (\<lambda>x. row_at bs (nat x)) ids))
       \<and> (\<not> (0 \<le> start \<and> prev < int (length bs div 280)
            \<and> (\<forall>x \<in> set ids. 0 \<le> x \<and> x < int (length bs div 280)))
          \<longrightarrow> isl (read_ranges bs (group_ranges start prev ids)))"
  using assms
proof (induction ids arbitrary: start prev)
  case Nil
  show ?case
  proof (cases "0 \<le> start \<and> prev < int (length bs div 280)")
    case True
    then show ?thesis
      using Nil read_ranges_Cons_ok [of start prev bs "[]"] by (simp del: upt_Suc)
  next
    case False
    then show ?thesis
      using Nil read_ranges_Cons_bad [of start prev bs "[]"] by auto
  qed
next
  case (Cons i ids)
  show ?case
  proof (cases "i = prev + 1")
    case True
    have sp: "start \<le> i" using True Cons.prems by simp
    have upt: "0 \<le> start \<Longrightarrow> [nat start..<nat i + 1] = [nat start..<nat prev + 1] @ [nat i]"
      using True Cons.prems by (simp add: nat_add_distrib)
    have rng: "(prev < int (length bs div 280) \<and> 0 \<le> i \<and> i < int (length bs div 280))
        = (i < int (length bs div 280))" if "0 \<le> start"
      using True Cons.prems that by auto
    show ?thesis
      using Cons.IH [OF sp] True upt rng
      by (auto simp del: upt_Suc)
  next
    case False
    note neq = False
    let ?ok = "\<lambda>x. 0 \<le> x \<and> x < int (length bs div 280)"
    have g: "group_ranges start prev (i # ids) = (start, prev) # group_ranges i i ids"
      using neq by simp
    show ?thesis
    proof (cases "0 \<le> start \<and> prev < int (length bs div 280)")
      case True
      have head: "read_ranges bs ((start, prev) # group_ranges i i ids)
          = (case read_ranges bs (group_ranges i i ids) of
               Inl err \<Rightarrow> Inl err
             | Inr vs \<Rightarrow> Inr (map (row_at bs) [nat start..<nat prev + 1] @ vs))"
        using True Cons.prems by (intro read_ranges_Cons_ok) simp_all
      have ih: "(?ok i \<and> (\<forall>x \<in> set ids. ?ok x)
            \<longrightarrow> read_ranges bs (group_ranges i i ids)
                = Inr (map (row_at bs) [nat i..<nat i + 1] @ map (\<lambda>x. row_at bs (nat x)) ids))
          \<and> (\<not> (?ok i \<and> (\<forall>x \<in> set ids. ?ok x))
            \<longrightarrow> isl (read_ranges bs (group_ranges i i ids)))"
        using Cons.IH [of i i] by auto
      have one: "[nat i..<Suc (nat i)] = [nat i]" by simp
      show ?thesis
      proof (cases "?ok i \<and> (\<forall>x \<in> set ids. ?ok x)")
        case ok: True
        then show ?thesis
          unfolding g head using ih True by (simp add: one del: upt_Suc)
      next
        case bad: False
        then have "isl (read_ranges bs (group_ranges i i ids))" using ih by blast
        then show ?thesis
          unfolding g head using bad by (auto split: sum.splits)
      qed
    next
      case False
      then have "isl (read_ranges bs ((start, prev) # group_ranges i i ids))"
        using Cons.prems by (intro read_ranges_Cons_bad) auto
      then show ?thesis unfolding g using False by auto
    qed
  qed
qed

lemma get_rows_body_eq:
  assumes "db_file db = Some bs"
  shows "(ids \<noteq> [] \<and> (\<forall>x \<in> set ids. 0 \<le> x \<and> x < int (length bs div 280))
          \<longrightarrow> get_rows_body db ids = Inr (map (\<lambda>x. row_at bs (nat x)) ids))
       \<and> (\<not> (ids \<noteq> [] \<and> (\<forall>x \<in> set ids. 0 \<le> x \<and> x < int (length bs div 280)))
          \<longrightarrow> isl (get_rows_body db ids))"
proof (cases ids)
  case Nil
  then show ?thesis using assms by (simp add: get_rows_body_def)
next
  case (Cons i rest)
  have one: "[nat i..<Suc (nat i)] = [nat i]" by simp
  show ?thesis
    using assms Cons read_ranges_group [of i i bs rest]
    by (auto simp add: get_rows_body_def one simp del: upt_Suc)
qed

lemma get_rows_in_range:
  assumes "db_file db = Some bs" and "ids \<noteq> []"
    and "\<forall>x \<in> set ids. 0 \<le> x \<and> x < int (length bs div 280)"
  shows "get_rows db ids = map (\<lambda>x. row_at bs (nat x)) ids"
  using get_rows_body_eq [OF assms(1), of ids] assms(2,3) by (simp add: get_rows_def)

lemma get_rows_failure:
  assumes "db_file db = Some bs"
    and "ids = [] \<or> (\<exists>x \<in> set ids. x < 0 \<or> int (length bs div 280) \<le> x)"
  shows "get_rows db ids = []"
proof -
  have "\<not> (ids \<noteq> [] \<and> (\<forall>x \<in> set ids. 0 \<le> x \<and> x < int (length bs div 280)))"
    using assms(2) by (metis not_less)
  then have "isl (get_rows_body db ids)"
    using get_rows_body_eq [OF assms(1), of ids] by blast
  then show ?thesis by (auto simp: get_rows_def split: sum.splits)
qed

lemma get_rows_missing: "db_file db = None \<Longrightarrow> get_rows db ids = []"
  by (simp add: get_rows_def get_rows_body_def)

subsection \<open>Insertion and the file of the store\<close>

lemma get_num_records_Inr:
  "get_num_records db = Inr n \<longleftrightarrow> (\<exists>bs. db_file db = Some bs \<and> n = length bs div 280)"
  by (auto simp: get_num_records_def DIMENSION_def ELEMENT_SIZE_def split: option.splits)

lemma use_write_db_file: "use_write db = Inr db' \<Longrightarrow> db_file db' = db_file db \<and> index_dir db' = index_dir db"
  by (auto simp: use_write_def split: option.splits nat.splits)

lemma write_file_records_db_file:
  "write_file_records name v db = (db', r) \<Longrightarrow> db_file db' = db_file db"
  by (auto simp: write_file_records_def split: option.splits sum.splits index_file.splits
      dest: use_write_db_file)

lemma write_file_centroids_db_file:
  "write_file_centroids name cs db = (db', r) \<Longrightarrow> db_file db' = db_file db"
  by (auto simp: write_file_centroids_def split: option.splits sum.splits
      dest: use_write_db_file)

lemma write_indices_db_file:
  "write_indices name is db = (db', r) \<Longrightarrow> db_file db' = db_file db"
proof (induction "is" arbitrary: db)
  case Nil
  then show ?case by simp
next
  case (Cons i "is")
  obtain db1 r1 where w: "write_file_records name i db = (db1, r1)" by (cases "write_file_records name i db")
  then have f: "db_file db1 = db_file db" by (rule write_file_records_db_file)
  show ?case
  proof (cases r1)
    case (Inl e)
    then show ?thesis using Cons.prems w f by simp
  next
    case (Inr u)
    then show ?thesis using Cons.prems w f Cons.IH [of db1] by simp
  qed
qed

lemma write_labels_db_file:
  "write_labels labels ls db = (db', r) \<Longrightarrow> db_file db' = db_file db"
proof (induction ls arbitrary: db)
  case Nil
  then show ?case by simp
next
  case (Cons l ls)
  obtain db1 r1 where w: "write_indices (posting_name l) (np_where_eq labels l) db = (db1, r1)"
    by (cases "write_indices (posting_name l) (np_where_eq labels l) db")
  then have f: "db_file db1 = db_file db" by (rule write_indices_db_file)
  show ?case
  proof (cases r1)
    case (Inl e)
    then show ?thesis using Cons.prems w f by simp
  next
    case (Inr u)
    then show ?thesis using Cons.prems w f Cons.IH [of db1] by simp
  qed
qed

lemma build_index_db_file:
  assumes "build_index K db = (db', r)"
  shows "db_file db' = db_file db"
proof -
  have "db_file db' = db_file db"
    if "write_labels labels ls (db\<lparr>no_centroids := c, index_dir := Some Map.empty\<rparr>) = (db3, r3)"
      and "(case r3 of Inl e \<Rightarrow> (db3, Inl e) | Inr u \<Rightarrow> write_file_centroids centroids_name cs db3) = (db', r)"
    for labels ls c db3 r3 cs
    using that write_labels_db_file [OF that(1)]
    by (auto split: sum.splits dest: write_file_centroids_db_file)
  then show ?thesis
    using assms
    by (auto simp: build_index_def Let_def split: sum.splits prod.splits)
qed


lemma decode_row_bytes: "decode_floats (row_bytes v) = v"
  using decode_floats_row [of v "[]"] by simp

lemma length_rows_bytes:
  "\<forall>r \<in> set rows. length r = 70 \<Longrightarrow> length (rows_bytes rows) = length rows * 280"
  by (induction rows) (simp_all add: rows_bytes_def length_row_bytes)

lemma rows_bytes_Cons: "rows_bytes (r # rows) = row_bytes r @ rows_bytes rows"
  by (simp add: rows_bytes_def)

lemma drop_rows_bytes:
  "\<forall>r \<in> set rows. length r = 70 \<Longrightarrow> drop (j * 280) (rows_bytes rows) = rows_bytes (drop j rows)"
proof (induction rows arbitrary: j)
  case Nil
  then show ?case by (simp add: rows_bytes_def)
next
  case (Cons r rows)
  show ?case
  proof (cases j)
    case 0
    then show ?thesis by simp
  next
    case (Suc k)
    have "length (row_bytes r) = 280" using Cons.prems by (simp add: length_row_bytes)
    then have "drop (Suc k * 280) (row_bytes r @ rows_bytes rows) = drop (k * 280) (rows_bytes rows)"
      by simp
    then show ?thesis using Cons Suc by (simp add: rows_bytes_Cons)
  qed
qed

lemma row_at_appended:
  assumes "length pre = n * 280" and "\<forall>r \<in> set rows. length r = 70" and "j < length rows"
  shows "row_at (pre @ rows_bytes rows @ post) (n + j) = rows ! j"
proof -
  have "drop ((n + j) * 280) (pre @ rows_bytes rows @ post)
      = drop (j * 280) (rows_bytes rows) @ drop (j * 280 - length (rows_bytes rows)) post"
    using assms(1) by (simp add: add_mult_distrib)
  also have "drop (j * 280) (rows_bytes rows) = rows_bytes (drop j rows)"
    using assms(2) by (rule drop_rows_bytes)
  also have "drop j rows = rows ! j # drop (Suc j) rows"
    using assms(3) by (simp add: Cons_nth_drop_Suc)
  finally have d: "drop ((n + j) * 280) (pre @ rows_bytes rows @ post)
      = row_bytes (rows ! j) @ (rows_bytes (drop (Suc j) rows)
          @ drop (j * 280 - length (rows_bytes rows)) post)"
    by (simp add: rows_bytes_Cons)
  have "length (row_bytes (rows ! j)) = 280"
    using assms(2,3) by (simp add: length_row_bytes)
  then show ?thesis
    unfolding row_at_def ROW_BYTES_280 d by (simp add: decode_row_bytes)
qed

lemma row_at_prefix:
  assumes "(i + 1) * 280 \<le> k" and "k \<le> length bs"
  shows "row_at (take k bs @ post) i = row_at bs i"
proof -
  have ik: "i * 280 + 280 \<le> k" using assms(1) by simp
  have "drop (i * 280) (take k bs @ post) = drop (i * 280) (take k bs) @ post"
    using ik assms(2) by simp
  moreover have "280 \<le> length (drop (i * 280) (take k bs))"
    using ik assms(2) by simp
  ultimately have "take 280 (drop (i * 280) (take k bs @ post))
      = take 280 (drop (i * 280) (take k bs))"
    by simp
  also have "\<dots> = take 280 (take (k - i * 280) (drop (i * 280) bs))"
    by (simp add: drop_take)
  also have "\<dots> = take 280 (drop (i * 280) bs)"
    using ik by (simp add: min_def)
  finally show ?thesis by (simp add: row_at_def ROW_BYTES_280)
qed

lemma broadcast_rows_same:
  "\<forall>r \<in> set rows. length r = DIMENSION \<Longrightarrow> broadcast_rows rows = Inr rows"
  by (simp add: broadcast_rows_def)

lemma insert_records_file:
  assumes "db_file db = Some bs" and "\<forall>r \<in> set rows. length r = DIMENSION"
    and "insert_records K rows db = (db', r)"
  shows "db_file db' = Some (if rows = [] then bs
                             else take (length bs div 280 * 280) bs @ rows_bytes rows)"
proof -
  let ?N = "length bs div 280"
  let ?n = "length rows"
  have num: "get_num_records db = Inr ?N"
    using assms(1) by (simp add: get_num_records_Inr)
  have w70: "\<forall>r \<in> set rows. length r = 70" using assms(2) by (simp add: DIMENSION_def)
  have bytes: "(?N + ?n) * DIMENSION * ELEMENT_SIZE = (?N + ?n) * 280"
    by (simp add: DIMENSION_def ELEMENT_SIZE_def)
  show ?thesis
  proof (cases "rows = []")
    case True
    have open_w: "memmap_open_w bs (?N * 280) = (bs, mmap_check (length bs) (int (?N * 280)) 0)"
      by (simp add: memmap_open_w_def Let_def)
    have asg: "assign_rows bs ?N [] = bs"
      by (simp add: assign_rows_def rows_bytes_def)
    have bytes0: "?N * DIMENSION * ELEMENT_SIZE = ?N * 280"
      by (simp add: DIMENSION_def ELEMENT_SIZE_def)
    have "db_file db' = Some bs"
      using assms(1,3) True num open_w asg
      by (auto simp: insert_records_def Let_def bytes0 broadcast_rows_def
          split: option.splits dest: build_index_db_file)
    then show ?thesis using True by simp
  next
    case False
    then have n0: "0 < ?n" by simp
    have "length bs < (?N + 1) * 280"
      by (metis add.commute div_less_iff_less_mult plus_1_eq_Suc lessI zero_less_numeral)
    also have "\<dots> \<le> (?N + ?n) * 280" using n0 by (simp add: Suc_leI)
    finally have short: "length bs < (?N + ?n) * 280" .
    let ?bs' = "bs @ replicate ((?N + ?n) * 280 - length bs) 0"
    have len': "length ?bs' = (?N + ?n) * 280" using short by simp
    have chk: "mmap_check (length ?bs') (int ((?N + ?n) * 280)) 0 = None"
      unfolding len' using n0 by (simp add: mmap_check_def)
    have open_w: "memmap_open_w bs ((?N + ?n) * 280) = (?bs', None)"
      using short chk by (simp add: memmap_open_w_def Let_def)
    have "?N * 280 \<le> length bs" by simp
    then have pre: "take (?N * 280) ?bs' = take (?N * 280) bs" by simp
    have post: "drop (?N * ROW_BYTES + length (rows_bytes rows)) ?bs' = []"
      using len' by (simp add: length_rows_bytes [OF w70] ROW_BYTES_280 add_mult_distrib)
    have asg: "assign_rows ?bs' ?N rows = take (?N * 280) bs @ rows_bytes rows"
      unfolding assign_rows_def post using pre by (simp add: ROW_BYTES_280)
    have "db_file db' = Some (take (?N * 280) bs @ rows_bytes rows)"
      using assms(1,3) num open_w asg broadcast_rows_same [OF assms(2)]
      by (auto simp: insert_records_def Let_def bytes dest: build_index_db_file)
    then show ?thesis using False by simp
  qed
qed

subsection \<open>C1: a row that was appended is read back\<close>

text \<open>
  C1: if the store holds \<open>n\<close> rows and a batch of vectors of dimension 70 is inserted, the
  \<open>j\<close>-th vector of the batch lands at row id \<open>n + j\<close>, and \<^verbatim>\<open>get_one_row\<close> of that id
  returns it with the same bit patterns, whatever the index build that follows does.
\<close>

theorem insert_then_get_one_row:
  assumes "get_num_records db = Inr n"
    and "\<forall>r \<in> set rows. length r = DIMENSION"
    and "j < length rows"
  shows "get_one_row (fst (insert_records K rows db)) (int (n + j)) = NdArray (rows ! j)"
proof -
  obtain bs where bs: "db_file db = Some bs" and n: "n = length bs div 280"
    using assms(1) by (auto simp: get_num_records_Inr)
  obtain db' r where ins: "insert_records K rows db = (db', r)"
    by (cases "insert_records K rows db")
  have ne: "rows \<noteq> []" using assms(3) by auto
  let ?f = "take (n * 280) bs @ rows_bytes rows"
  have fcont: "db_file db' = Some ?f"
    using insert_records_file [OF bs assms(2) ins] ne n by simp
  have w70: "\<forall>r \<in> set rows. length r = 70" using assms(2) by (simp add: DIMENSION_def)
  have pre: "length (take (n * 280) bs) = n * 280" using n by simp
  have len: "length ?f = (n + length rows) * 280"
    using pre by (simp add: length_rows_bytes [OF w70] add_mult_distrib)
  have row: "row_at ?f (n + j) = rows ! j"
    using row_at_appended [OF pre w70 assms(3), of "[]"] by simp
  have "int (n + j) < int (length ?f div 280)"
    using assms(3) unfolding len by simp
  then have g: "get_one_row db' (int (n + j)) = NdArray (row_at ?f (nat (int (n + j))))"
    using fcont by (intro get_one_row_in_range) simp_all
  show ?thesis
    unfolding ins fst_conv g nat_int row by (rule refl)
qed

theorem insert_then_get_one_row_witness:
  "get_num_records empty_store = Inr 0
   \<and> length ones = DIMENSION
   \<and> (0::nat) < length [ones]
   \<and> get_one_row (fst (insert_records km_distinct [ones] empty_store)) (int (0 + 0))
       = NdArray ([ones] ! 0)"
  using insert_then_get_one_row [of empty_store 0 "[ones]" 0 km_distinct]
  by (simp add: get_num_records_def empty_store_def ones_def)

subsection \<open>C5: insertion appends and leaves the old rows alone\<close>

text \<open>
  C5: on a store of \<open>n\<close> rows, inserting a batch of vectors of dimension 70 makes the
  record count \<open>n\<close> plus the length of the batch, and every row id below \<open>n\<close> still
  reads as the vector it read as before.
\<close>

theorem insert_records_appends:
  assumes "get_num_records db = Inr n"
    and "\<forall>r \<in> set rows. length r = DIMENSION"
  shows "get_num_records (fst (insert_records K rows db)) = Inr (n + length rows)
       \<and> (\<forall>i < n. get_one_row (fst (insert_records K rows db)) (int i) = get_one_row db (int i))"
proof -
  obtain bs where bs: "db_file db = Some bs" and n: "n = length bs div 280"
    using assms(1) by (auto simp: get_num_records_Inr)
  obtain db' r where ins: "insert_records K rows db = (db', r)"
    by (cases "insert_records K rows db")
  show ?thesis
  proof (cases "rows = []")
    case True
    then have "db_file db' = Some bs"
      using insert_records_file [OF bs assms(2) ins] by simp
    then have "get_num_records db' = Inr n" "\<And>i. get_one_row db' i = get_one_row db i"
      using bs n by (simp_all add: get_num_records_Inr get_one_row_def)
    then show ?thesis using ins True by simp
  next
    case False
    let ?f = "take (n * 280) bs @ rows_bytes rows"
    have fcont: "db_file db' = Some ?f"
      using insert_records_file [OF bs assms(2) ins] False n by simp
    have w70: "\<forall>r \<in> set rows. length r = 70" using assms(2) by (simp add: DIMENSION_def)
    have le: "n * 280 \<le> length bs" using n by simp
    then have len: "length ?f = (n + length rows) * 280"
      by (simp add: length_rows_bytes [OF w70] add_mult_distrib)
    have cnt: "get_num_records db' = Inr (n + length rows)"
      using fcont len by (simp add: get_num_records_Inr)
    have old: "get_one_row db' (int i) = get_one_row db (int i)" if "i < n" for i
    proof -
      have "int i < int (length ?f div 280)" using that unfolding len by simp
      then have a: "get_one_row db' (int i) = NdArray (row_at ?f (nat (int i)))"
        using fcont by (intro get_one_row_in_range) simp_all
      have "int i < int (length bs div 280)" using that n by simp
      then have b: "get_one_row db (int i) = NdArray (row_at bs (nat (int i)))"
        using bs by (intro get_one_row_in_range) simp_all
      have "(i + 1) * 280 \<le> n * 280" using that by simp
      then have "row_at ?f i = row_at bs i" using le by (rule row_at_prefix)
      then show ?thesis using a b by simp
    qed
    show ?thesis using cnt old ins by simp
  qed
qed

theorem insert_records_appends_witness:
  "get_num_records empty_store = Inr 0
   \<and> length ones = DIMENSION
   \<and> get_num_records (fst (insert_records km_distinct [ones, ones] empty_store))
       = Inr (0 + length [ones, ones])"
  using insert_records_appends [of empty_store 0 "[ones, ones]" km_distinct]
  by (simp add: get_num_records_def empty_store_def ones_def)

subsection \<open>C4: what the row accessors do on a failure\<close>

lemma one_row_file: "length (rows_bytes [ones]) = 280"
  by (simp add: rows_bytes_def length_row_bytes ones_def DIMENSION_def)

text \<open>
  C4, as stated, fails. On a store of one row, \<^verbatim>\<open>get_one_row(1)\<close> raises nothing:
  it returns the string made from the \<open>ValueError\<close> of the memory map. With no
  database file, \<^verbatim>\<open>get_rows([0])\<close> raises nothing either: it returns an array
  without rows.
\<close>

theorem row_accessors_return_values_on_failure:
  "get_one_row (empty_store\<lparr>db_file := Some (rows_bytes [ones])\<rparr>) 1 = ErrorString ValueError
   \<and> get_rows (empty_store\<lparr>db_file := None\<rparr>) [0] = []"
proof -
  have "get_one_row (empty_store\<lparr>db_file := Some (rows_bytes [ones])\<rparr>) 1 = ErrorString ValueError"
    by (rule get_one_row_beyond [where bs = "rows_bytes [ones]"]) (simp_all add: one_row_file)
  moreover have "get_rows (empty_store\<lparr>db_file := None\<rparr>) [0] = []"
    by (rule get_rows_missing) simp
  ultimately show ?thesis by simp
qed

text \<open>
  C4, amended: no failure of the row accessors is raised. For an id outside
  \<open>[0, N)\<close>, \<^verbatim>\<open>get_one_row\<close> returns the error-message string of the exception
  it caught: an \<open>OverflowError\<close> for a negative id, a \<open>ValueError\<close> for an id from
  \<open>N\<close> on whose row would end at a byte below \<open>2^63\<close> (ids below
  32940614417338485), a \<open>FileNotFoundError\<close> when there is no file.
  \<^verbatim>\<open>get_rows\<close> returns an array without rows when the file is missing, when the
  ids are empty, or when one of the ids is outside \<open>[0, N)\<close>.
\<close>

theorem row_accessors_swallow_errors:
  "(get_num_records db = Inr n \<and> i < 0 \<longrightarrow> get_one_row db i = ErrorString OverflowError)
   \<and> (get_num_records db = Inr n \<and> int n \<le> i
          \<and> i * int DIMENSION * int ELEMENT_SIZE + int (DIMENSION * ELEMENT_SIZE) < 2 ^ 63 \<longrightarrow>
        get_one_row db i = ErrorString ValueError)
   \<and> (db_file db = None \<longrightarrow>
        get_one_row db i = ErrorString FileNotFoundError \<and> get_rows db ids = [])
   \<and> (get_num_records db = Inr n \<and> (ids = [] \<or> (\<exists>x \<in> set ids. x < 0 \<or> int n \<le> x)) \<longrightarrow>
        get_rows db ids = [])"
proof (intro conjI impI)
  assume "get_num_records db = Inr n \<and> i < 0"
  then show "get_one_row db i = ErrorString OverflowError"
    by (auto simp: get_num_records_Inr intro: get_one_row_negative)
next
  assume "get_num_records db = Inr n \<and> int n \<le> i
          \<and> i * int DIMENSION * int ELEMENT_SIZE + int (DIMENSION * ELEMENT_SIZE) < 2 ^ 63"
  then show "get_one_row db i = ErrorString ValueError"
    by (auto simp: get_num_records_Inr intro: get_one_row_beyond)
next
  assume "db_file db = None"
  then show "get_one_row db i = ErrorString FileNotFoundError"
    by (rule get_one_row_missing)
next
  assume "db_file db = None"
  then show "get_rows db ids = []"
    by (rule get_rows_missing)
next
  assume a: "get_num_records db = Inr n \<and> (ids = [] \<or> (\<exists>x \<in> set ids. x < 0 \<or> int n \<le> x))"
  then obtain bs where bs: "db_file db = Some bs" and n: "n = length bs div 280"
    by (auto simp: get_num_records_Inr)
  show "get_rows db ids = []"
    using a n by (intro get_rows_failure [OF bs]) simp
qed

theorem row_accessors_swallow_errors_witness:
  "get_num_records (empty_store\<lparr>db_file := Some (rows_bytes [ones])\<rparr>) = Inr 1
   \<and> int 1 \<le> 7
   \<and> 7 * int DIMENSION * int ELEMENT_SIZE + int (DIMENSION * ELEMENT_SIZE) < 2 ^ 63
   \<and> get_one_row (empty_store\<lparr>db_file := Some (rows_bytes [ones])\<rparr>) 7 = ErrorString ValueError
   \<and> (\<exists>x \<in> set [0, 7::int]. x < 0 \<or> int 1 \<le> x)
   \<and> get_rows (empty_store\<lparr>db_file := Some (rows_bytes [ones])\<rparr>) [0, 7] = []"
proof -
  have n: "get_num_records (empty_store\<lparr>db_file := Some (rows_bytes [ones])\<rparr>) = Inr 1"
    by (simp add: get_num_records_Inr one_row_file)
  show ?thesis
    using n row_accessors_swallow_errors
      [of "empty_store\<lparr>db_file := Some (rows_bytes [ones])\<rparr>" 1 7 "[0, 7]"]
    by (simp add: DIMENSION_def ELEMENT_SIZE_def)
qed

subsection \<open>Names of the index files\<close>

lemma digit_char_inj: "a < 10 \<Longrightarrow> b < 10 \<Longrightarrow> digit_char a = digit_char b \<Longrightarrow> a = b"
proof -
  assume a: "a < 10" and b: "b < 10" and eq: "digit_char a = digit_char b"
  have "of_char (char_of (48 + a) :: char) = (48 + a) mod 256" by simp
  moreover have "of_char (char_of (48 + b) :: char) = (48 + b) mod 256" by simp
  ultimately have "(48 + a) mod 256 = (48 + b) mod (256::nat)"
    using eq by (simp add: digit_char_def)
  then show "a = b" using a b by simp
qed

lemma str_nat_step:
  "10 \<le> n \<Longrightarrow> str_nat n = str_nat (n div 10) @ [digit_char (n mod 10)]"
  by (subst str_nat.simps) simp

lemma str_nat_digit: "n < 10 \<Longrightarrow> str_nat n = [digit_char n]"
  by (subst str_nat.simps) simp

lemma str_nat_not_Nil: "str_nat n \<noteq> []"
  by (subst str_nat.simps) simp

lemma length_str_nat_ge2: "10 \<le> n \<Longrightarrow> 2 \<le> length (str_nat n)"
proof -
  assume "10 \<le> n"
  then have "length (str_nat n) = Suc (length (str_nat (n div 10)))"
    by (simp add: str_nat_step)
  moreover have "0 < length (str_nat (n div 10))"
    using str_nat_not_Nil by blast
  ultimately show ?thesis by linarith
qed

lemma str_nat_inj: "str_nat m = str_nat n \<Longrightarrow> m = n"
proof (induction n arbitrary: m rule: str_nat.induct)
  case (1 n)
  show ?case
  proof (cases "n < 10")
    case True
    show ?thesis
    proof (cases "m < 10")
      case m: True
      then show ?thesis
        using True 1(2) by (auto simp: str_nat_digit dest: digit_char_inj)
    next
      case False
      then have "2 \<le> length (str_nat m)" by (simp add: length_str_nat_ge2)
      moreover have "length (str_nat n) = 1" using True by (simp add: str_nat_digit)
      ultimately show ?thesis using 1(2) by simp
    qed
  next
    case False
    then have n10: "10 \<le> n" by simp
    show ?thesis
    proof (cases "m < 10")
      case True
      have "2 \<le> length (str_nat n)" using n10 by (rule length_str_nat_ge2)
      moreover have "length (str_nat m) = 1" using True by (simp add: str_nat_digit)
      ultimately show ?thesis using 1(2) by simp
    next
      case m: False
      then have m10: "10 \<le> m" by simp
      have eq: "str_nat (m div 10) @ [digit_char (m mod 10)]
          = str_nat (n div 10) @ [digit_char (n mod 10)]"
        using 1(2) m10 n10 by (simp add: str_nat_step)
      then have a: "str_nat (m div 10) = str_nat (n div 10)"
        and b: "digit_char (m mod 10) = digit_char (n mod 10)"
        by simp_all
      have "m div 10 = n div 10" using 1(1) False a by simp
      moreover have "m mod 10 = n mod 10"
        using b by (intro digit_char_inj) simp_all
      ultimately show ?thesis by (metis div_mult_mod_eq)
    qed
  qed
qed

lemma posting_name_inj: "posting_name a = posting_name b \<Longrightarrow> a = b"
  by (simp add: posting_name_def str_nat_inj)

lemma hd_str_nat: "hd (str_nat n) \<in> digit_char ` {0..<10}"
proof (induction n rule: str_nat.induct)
  case (1 n)
  show ?case
  proof (cases "n < 10")
    case True
    then show ?thesis by (simp add: str_nat_digit)
  next
    case False
    then have "hd (str_nat n) = hd (str_nat (n div 10))"
      by (simp add: str_nat_step str_nat_not_Nil)
    then show ?thesis using 1 False by simp
  qed
qed

lemma digit_char_not_c: "d < 10 \<Longrightarrow> digit_char d \<noteq> CHR ''c''"
proof
  assume d: "d < 10" and eq: "digit_char d = CHR ''c''"
  from eq have "(of_char (digit_char d) :: nat) = of_char (CHR ''c'')" by simp
  then have "(48 + d) mod 256 = (99::nat)" by (simp add: digit_char_def)
  then show False using d by simp
qed

lemma posting_name_not_centroids: "posting_name l \<noteq> centroids_name"
proof
  assume "posting_name l = centroids_name"
  then have "hd (str_nat l @ ''.bin'') = CHR ''c''"
    by (simp add: posting_name_def centroids_name_def)
  then have c: "hd (str_nat l) = CHR ''c''" by (simp add: str_nat_not_Nil)
  obtain d where "d < 10" and "hd (str_nat l) = digit_char d"
    using hd_str_nat [of l] by auto
  then show False using c digit_char_not_c [of d] by simp
qed

subsection \<open>The files a build writes\<close>

lemma use_write_fields:
  "use_write db = Inr db' \<Longrightarrow>
     db_file db' = db_file db \<and> index_dir db' = index_dir db \<and> no_centroids db' = no_centroids db"
  by (auto simp: use_write_def split: option.splits nat.splits)

lemma write_file_records_ok:
  assumes "write_file_records name v db = (db', Inr u)" and "index_dir db = Some dir"
    and "dir name = None \<and> old = [] \<or> dir name = Some (Records old)"
  shows "index_dir db' = Some (dir(name \<mapsto> Records (old @ [v])))"
  using assms
  by (auto simp: write_file_records_def split: sum.splits option.splits index_file.splits)

lemma write_indices_ok:
  assumes "write_indices name is db = (db', Inr u)" and "index_dir db = Some dir"
    and "dir name = None \<and> old = [] \<or> dir name = Some (Records old)"
  shows "index_dir db' = Some (if is = [] then dir else dir(name \<mapsto> Records (old @ is)))"
  using assms
proof (induction "is" arbitrary: db dir old)
  case Nil
  then show ?case by simp
next
  case (Cons i "is")
  obtain db1 r1 where w: "write_file_records name i db = (db1, r1)"
    by (cases "write_file_records name i db")
  with Cons.prems(1) obtain u1 where r1: "r1 = Inr u1" and rest: "write_indices name is db1 = (db', Inr u)"
    by (cases r1) auto
  let ?dir1 = "dir(name \<mapsto> Records (old @ [i]))"
  have d1: "index_dir db1 = Some ?dir1"
    using w r1 Cons.prems(2,3) by (intro write_file_records_ok) auto
  have "index_dir db' = Some (if is = [] then ?dir1 else ?dir1(name \<mapsto> Records ((old @ [i]) @ is)))"
    by (rule Cons.IH [OF rest d1]) simp
  then show ?case by (cases "is = []") (auto simp: fun_upd_def)
qed

lemma np_where_eq_not_Nil: "l \<in> set labels \<Longrightarrow> np_where_eq labels l \<noteq> []"
proof -
  assume "l \<in> set labels"
  then obtain i where "i < length labels" "labels ! i = l" by (auto simp: in_set_conv_nth)
  then have "i \<in> set (np_where_eq labels l)" by (simp add: np_where_eq_def)
  then show ?thesis by auto
qed

lemma write_labels_ok:
  assumes "write_labels labels ls db = (db', Inr u)" and "index_dir db = Some dir"
    and "distinct ls" and "set ls \<subseteq> set labels"
    and "\<forall>l \<in> set ls. dir (posting_name l) = None"
  shows "index_dir db'
       = Some (dir ++ map_of (map (\<lambda>l. (posting_name l, Records (np_where_eq labels l))) ls))"
  using assms
proof (induction ls arbitrary: db dir)
  case Nil
  then show ?case by simp
next
  case (Cons l ls)
  let ?entry = "\<lambda>l. (posting_name l, Records (np_where_eq labels l))"
  obtain db1 r1 where w: "write_indices (posting_name l) (np_where_eq labels l) db = (db1, r1)"
    by (cases "write_indices (posting_name l) (np_where_eq labels l) db")
  with Cons.prems(1) obtain u1 where r1: "r1 = Inr u1"
    and rest: "write_labels labels ls db1 = (db', Inr u)"
    by (cases r1) auto
  let ?dir1 = "dir(posting_name l \<mapsto> Records (np_where_eq labels l))"
  have ne: "np_where_eq labels l \<noteq> []"
    using Cons.prems(4) by (intro np_where_eq_not_Nil) simp
  have "index_dir db1 = Some (if np_where_eq labels l = [] then dir
           else dir(posting_name l \<mapsto> Records ([] @ np_where_eq labels l)))"
    using w r1 Cons.prems(2,5) by (intro write_indices_ok) auto
  then have d1: "index_dir db1 = Some ?dir1" using ne by simp
  have fresh: "\<forall>l' \<in> set ls. ?dir1 (posting_name l') = None"
    using Cons.prems(3,5) by (auto dest: posting_name_inj)
  have ih: "index_dir db' = Some (?dir1 ++ map_of (map ?entry ls))"
    using Cons.prems(3,4) by (intro Cons.IH [OF rest d1 _ _ fresh]) auto
  have notin: "posting_name l \<notin> dom (map_of (map ?entry ls))"
    using Cons.prems(3) by (auto simp: dom_map_of_conv_image_fst image_image dest: posting_name_inj)
  have "map_of (map ?entry (l # ls))
      = (map_of (map ?entry ls))(posting_name l \<mapsto> Records (np_where_eq labels l))"
    by simp
  then have a: "dir ++ map_of (map ?entry (l # ls))
      = (dir ++ map_of (map ?entry ls))(posting_name l \<mapsto> Records (np_where_eq labels l))"
    by (simp only: map_add_upd)
  have b: "?dir1 ++ map_of (map ?entry ls)
      = (dir ++ map_of (map ?entry ls))(posting_name l \<mapsto> Records (np_where_eq labels l))"
    using notin by (rule map_add_upd_left)
  show ?case unfolding ih a b by (rule refl)
qed


lemma write_file_centroids_ok:
  assumes "write_file_centroids name cs db = (db', Inr u)" and "index_dir db = Some dir"
  shows "index_dir db' = Some (dir(name \<mapsto> Centroids cs))"
  using assms
  by (auto simp: write_file_centroids_def split: sum.splits option.splits)

lemma set_np_unique: "set (np_unique labels) = set labels"
  by (simp add: np_unique_def)

lemma distinct_np_unique: "distinct (np_unique labels)"
  by (simp add: np_unique_def)

lemma map_of_postings:
  "map_of (map (\<lambda>l. (posting_name l, Records (np_where_eq labels l))) ls) (posting_name l)
     = (if l \<in> set ls then Some (Records (np_where_eq labels l)) else None)"
  by (induction ls) (auto dest: posting_name_inj)

lemma map_of_postings_Some:
  "map_of (map (\<lambda>l. (posting_name l, Records (np_where_eq labels l))) ls) name = Some f
     \<Longrightarrow> \<exists>l \<in> set ls. name = posting_name l \<and> f = Records (np_where_eq labels l)"
  by (induction ls) (auto split: if_splits)

lemma built_index_posting:
  "built_index labels cs (posting_name l)
     = (if l \<in> set labels then Some (Records (np_where_eq labels l)) else None)"
  using posting_name_not_centroids [of l]
  by (simp add: built_index_def map_of_postings set_np_unique)

lemma built_index_centroids: "built_index labels cs centroids_name = Some (Centroids cs)"
  by (simp add: built_index_def)

lemma built_index_Records:
  assumes "built_index labels cs name = Some (Records ids)"
  shows "\<exists>l \<in> set labels. name = posting_name l \<and> ids = np_where_eq labels l"
proof -
  have "name \<noteq> centroids_name" using assms by (auto simp: built_index_def)
  then have "map_of (map (\<lambda>l. (posting_name l, Records (np_where_eq labels l))) (np_unique labels)) name
      = Some (Records ids)"
    using assms by (simp add: built_index_def)
  then show ?thesis
    using map_of_postings_Some [of labels "np_unique labels" name "Records ids"]
    by (auto simp: set_np_unique)
qed

lemma get_all_rows_no_centroids [simp]:
  "get_all_rows (db\<lparr>no_centroids := c\<rparr>) = get_all_rows db"
  by (simp add: get_all_rows_def get_num_records_def split: option.splits)

lemma build_index_ok:
  assumes "build_index K db = (db', Inr u)" and "db_file db = Some bs"
  shows "\<exists>fitted labels.
           km_fit K (centroid_count (length bs div 280)) (map (row_at bs) [0..<length bs div 280])
             = Inr fitted
         \<and> km_predict K fitted (map (row_at bs) [0..<length bs div 280]) = Inr labels
         \<and> index_dir db' = Some (built_index labels (km_centers K fitted))"
proof -
  let ?n = "length bs div 280"
  let ?rows = "map (row_at bs) [0..<?n]"
  have num: "get_num_records db = Inr ?n"
    using assms(2) by (simp add: get_num_records_Inr)
  have "bs \<noteq> []"
  proof
    assume "bs = []"
    then have "get_all_rows db = Inl ValueError"
      using assms(2) by (simp add: get_all_rows_empty_file)
    then show False using assms(1) num by (simp add: build_index_def Let_def)
  qed
  then have rows: "get_all_rows db = Inr ?rows"
    using assms(2) by (rule get_all_rows_eq [rotated])
  obtain fitted where fit: "km_fit K (centroid_count ?n) ?rows = Inr fitted"
    using assms(1) num rows
    by (cases "km_fit K (centroid_count ?n) ?rows") (simp_all add: build_index_def Let_def)
  obtain labels where pred: "km_predict K fitted ?rows = Inr labels"
    using assms(1) num rows fit
    by (cases "km_predict K fitted ?rows") (simp_all add: build_index_def Let_def)
  let ?db2 = "db\<lparr>no_centroids := centroid_count ?n, index_dir := Some Map.empty\<rparr>"
  obtain db3 r3 where wl: "write_labels labels (np_unique labels) ?db2 = (db3, r3)"
    by (cases "write_labels labels (np_unique labels) ?db2")
  have step: "(case r3 of Inl e \<Rightarrow> (db3, Inl e)
               | Inr u \<Rightarrow> write_file_centroids centroids_name (km_centers K fitted) db3) = (db', Inr u)"
    using assms(1) num rows fit pred wl by (simp add: build_index_def Let_def)
  then obtain u3 where r3: "r3 = Inr u3" by (cases r3) auto
  then have wc: "write_file_centroids centroids_name (km_centers K fitted) db3 = (db', Inr u)"
    using step by simp
  let ?posts = "map_of (map (\<lambda>l. (posting_name l, Records (np_where_eq labels l))) (np_unique labels))"
  have wl': "write_labels labels (np_unique labels) ?db2 = (db3, Inr u3)"
    using wl r3 by simp
  have "index_dir db3 = Some (Map.empty ++ ?posts)"
    by (rule write_labels_ok [OF wl']) (simp_all add: distinct_np_unique set_np_unique)
  then have d3: "index_dir db3 = Some ?posts" by simp
  have "index_dir db' = Some (?posts(centroids_name \<mapsto> Centroids (km_centers K fitted)))"
    using wc d3 by (rule write_file_centroids_ok)
  then have "index_dir db' = Some (built_index labels (km_centers K fitted))"
    by (simp add: built_index_def)
  then show ?thesis using fit pred by blast
qed

lemma built_index_partition:
  assumes "index_dir db = Some (built_index labels cs)" and "length labels = n"
  shows "posting_lists_partition db n"
  unfolding posting_lists_partition_def
proof (intro exI conjI allI impI)
  show "index_dir db = Some (built_index labels cs)" by (rule assms(1))
next
  fix name ids
  assume "built_index labels cs name = Some (Records ids)"
  then obtain l where "ids = np_where_eq labels l"
    using built_index_Records by blast
  then show "distinct ids" by (simp add: np_where_eq_def)
next
  fix name ids
  assume "built_index labels cs name = Some (Records ids)"
  then obtain l where "ids = np_where_eq labels l"
    using built_index_Records by blast
  then show "set ids \<subseteq> {0..<n}" using assms(2) by (auto simp: np_where_eq_def)
next
  fix i
  assume i: "i < n"
  show "\<exists>!name. \<exists>ids. built_index labels cs name = Some (Records ids) \<and> i \<in> set ids"
  proof (rule ex1I [where a = "posting_name (labels ! i)"])
    have "labels ! i \<in> set labels" using i assms(2) by simp
    moreover have "i \<in> set (np_where_eq labels (labels ! i))"
      using i assms(2) by (simp add: np_where_eq_def)
    ultimately show "\<exists>ids. built_index labels cs (posting_name (labels ! i)) = Some (Records ids)
        \<and> i \<in> set ids"
      by (simp add: built_index_posting)
  next
    fix name
    assume "\<exists>ids. built_index labels cs name = Some (Records ids) \<and> i \<in> set ids"
    then obtain ids where a: "built_index labels cs name = Some (Records ids)" and b: "i \<in> set ids"
      by blast
    obtain l where l: "name = posting_name l" "ids = np_where_eq labels l"
      using built_index_Records [OF a] by blast
    then have "labels ! i = l" using b by (simp add: np_where_eq_def)
    then show "name = posting_name (labels ! i)" using l by simp
  qed
qed

subsection \<open>Index construction when no write fails\<close>

lemma write_file_records_unlimited:
  assumes "writes_left db = None" and "index_dir db = Some dir"
    and "dir name = None \<and> old = [] \<or> dir name = Some (Records old)"
  shows "write_file_records name v db
       = (db\<lparr>index_dir := Some (dir(name \<mapsto> Records (old @ [v])))\<rparr>, Inr ())"
  using assms by (auto simp: write_file_records_def use_write_def)

lemma write_indices_unlimited:
  assumes "writes_left db = None" and "index_dir db = Some dir"
    and "dir name = None \<and> old = [] \<or> dir name = Some (Records old)"
  shows "write_indices name is db
       = (db\<lparr>index_dir := Some (if is = [] then dir else dir(name \<mapsto> Records (old @ is)))\<rparr>,
          Inr ())"
  using assms
proof (induction "is" arbitrary: db dir old)
  case Nil
  then show ?case by simp
next
  case (Cons i "is")
  let ?db1 = "db\<lparr>index_dir := Some (dir(name \<mapsto> Records (old @ [i])))\<rparr>"
  have w: "write_file_records name i db = (?db1, Inr ())"
    using Cons.prems by (rule write_file_records_unlimited)
  have "write_indices name is ?db1
      = (?db1\<lparr>index_dir := Some (if is = [] then dir(name \<mapsto> Records (old @ [i]))
             else (dir(name \<mapsto> Records (old @ [i])))(name \<mapsto> Records ((old @ [i]) @ is)))\<rparr>,
         Inr ())"
    by (rule Cons.IH [where old = "old @ [i]"])
      (use Cons.prems(1) in \<open>simp_all add: fun_upd_def\<close>)
  then show ?case using w by (cases "is = []") (simp_all add: fun_upd_def cong: if_cong)
qed

lemma write_labels_unlimited:
  assumes "writes_left db = None" and "index_dir db = Some dir"
    and "distinct ls" and "set ls \<subseteq> set labels"
    and "\<forall>l \<in> set ls. dir (posting_name l) = None"
  shows "write_labels labels ls db
       = (db\<lparr>index_dir :=
              Some (dir ++ map_of (map (\<lambda>l. (posting_name l, Records (np_where_eq labels l))) ls))\<rparr>,
          Inr ())"
  using assms
proof (induction ls arbitrary: db dir)
  case Nil
  then show ?case by simp
next
  case (Cons l ls)
  let ?entry = "\<lambda>l. (posting_name l, Records (np_where_eq labels l))"
  let ?db1 = "db\<lparr>index_dir := Some (dir(posting_name l \<mapsto> Records (np_where_eq labels l)))\<rparr>"
  have ne: "np_where_eq labels l \<noteq> []"
    using Cons.prems(4) by (intro np_where_eq_not_Nil) simp
  have "write_indices (posting_name l) (np_where_eq labels l) db
      = (db\<lparr>index_dir := Some (if np_where_eq labels l = [] then dir
            else dir(posting_name l \<mapsto> Records ([] @ np_where_eq labels l)))\<rparr>, Inr ())"
    by (rule write_indices_unlimited [where dir = dir and old = "[]"])
      (use Cons.prems(1,2,5) in \<open>auto simp: fun_upd_def\<close>)
  then have w: "write_indices (posting_name l) (np_where_eq labels l) db = (?db1, Inr ())"
    using ne by simp
  have fresh: "\<forall>l' \<in> set ls. (dir(posting_name l \<mapsto> Records (np_where_eq labels l))) (posting_name l') = None"
    using Cons.prems(3,5) by (auto dest: posting_name_inj)
  have ih: "write_labels labels ls ?db1
      = (?db1\<lparr>index_dir := Some ((dir(posting_name l \<mapsto> Records (np_where_eq labels l))) ++ map_of (map ?entry ls))\<rparr>, Inr ())"
    by (rule Cons.IH [OF _ _ _ _ fresh])
      (use Cons.prems(1,3,4) in \<open>auto simp: fun_upd_def\<close>)
  have notin: "posting_name l \<notin> dom (map_of (map ?entry ls))"
    using Cons.prems(3) by (auto simp: dom_map_of_conv_image_fst image_image dest: posting_name_inj)
  have "map_of (map ?entry (l # ls))
      = (map_of (map ?entry ls))(posting_name l \<mapsto> Records (np_where_eq labels l))"
    by simp
  then have a: "dir ++ map_of (map ?entry (l # ls))
      = (dir ++ map_of (map ?entry ls))(posting_name l \<mapsto> Records (np_where_eq labels l))"
    by (simp only: map_add_upd)
  have b: "(dir(posting_name l \<mapsto> Records (np_where_eq labels l))) ++ map_of (map ?entry ls)
      = (dir ++ map_of (map ?entry ls))(posting_name l \<mapsto> Records (np_where_eq labels l))"
    using notin by (rule map_add_upd_left)
  have "write_labels labels (l # ls) db
      = (?db1\<lparr>index_dir := Some ((dir(posting_name l \<mapsto> Records (np_where_eq labels l))) ++ map_of (map ?entry ls))\<rparr>, Inr ())"
    using w ih by simp
  then show ?case unfolding a b by (simp add: fun_upd_def)
qed

lemma build_index_unlimited:
  assumes "db_file db = Some bs" and "bs \<noteq> []" and "writes_left db = None"
    and "km_fit K (centroid_count (length bs div 280)) (map (row_at bs) [0..<length bs div 280])
           = Inr fitted"
    and "km_predict K fitted (map (row_at bs) [0..<length bs div 280]) = Inr labels"
  shows "build_index K db
       = (db\<lparr>no_centroids := centroid_count (length bs div 280),
              index_dir := Some (built_index labels (km_centers K fitted))\<rparr>, Inr ())"
proof -
  let ?n = "length bs div 280"
  let ?rows = "map (row_at bs) [0..<?n]"
  let ?posts = "map_of (map (\<lambda>l. (posting_name l, Records (np_where_eq labels l))) (np_unique labels))"
  let ?db2 = "db\<lparr>no_centroids := centroid_count ?n, index_dir := Some Map.empty\<rparr>"
  have num: "get_num_records db = Inr ?n"
    using assms(1) by (simp add: get_num_records_Inr)
  have rows: "get_all_rows db = Inr ?rows"
    using assms(1,2) by (rule get_all_rows_eq)
  have "write_labels labels (np_unique labels) ?db2
      = (?db2\<lparr>index_dir := Some (Map.empty ++ ?posts)\<rparr>, Inr ())"
    by (rule write_labels_unlimited [where dir = Map.empty])
      (use assms(3) in \<open>simp_all add: distinct_np_unique set_np_unique\<close>)
  then have wl: "write_labels labels (np_unique labels) ?db2
      = (db\<lparr>no_centroids := centroid_count ?n, index_dir := Some ?posts\<rparr>, Inr ())"
    by simp
  have wc: "write_file_centroids centroids_name (km_centers K fitted)
        (db\<lparr>no_centroids := centroid_count ?n, index_dir := Some ?posts\<rparr>)
      = (db\<lparr>no_centroids := centroid_count ?n,
             index_dir := Some (built_index labels (km_centers K fitted))\<rparr>, Inr ())"
    using assms(3) by (simp add: write_file_centroids_def use_write_def built_index_def)
  show ?thesis
    using num rows assms(4,5) wl wc by (simp add: build_index_def Let_def)
qed

subsection \<open>The store of two rows\<close>

lemma rows_of_rows_bytes:
  assumes "\<forall>r \<in> set rows. length r = 70"
  shows "map (row_at (rows_bytes rows)) [0..<length rows] = rows"
proof (rule nth_equalityI)
  show "length (map (row_at (rows_bytes rows)) [0..<length rows]) = length rows" by simp
next
  fix j assume "j < length (map (row_at (rows_bytes rows)) [0..<length rows])"
  then have j: "j < length rows" by simp
  have "row_at ([] @ rows_bytes rows @ []) (0 + j) = rows ! j"
    using _ assms j by (rule row_at_appended) simp
  then show "map (row_at (rows_bytes rows)) [0..<length rows] ! j = rows ! j"
    using j by simp
qed

lemma length_ones: "length ones = 70"
  by (simp add: ones_def DIMENSION_def)

lemma length_twos: "length twos = 70"
  by (simp add: twos_def DIMENSION_def)

lemma ones_neq_twos: "ones \<noteq> twos"
  by (simp add: ones_def twos_def DIMENSION_def f32_one_def)

lemma two_rows_length: "length (rows_bytes [ones, twos]) = 560"
  using length_rows_bytes [of "[ones, twos]"] by (simp add: length_ones length_twos)

lemma two_rows_rows:
  "map (row_at (rows_bytes [ones, twos])) [0..<length (rows_bytes [ones, twos]) div 280]
     = [ones, twos]"
proof -
  have "map (row_at (rows_bytes [ones, twos])) [0..<length [ones, twos]] = [ones, twos]"
    by (rule rows_of_rows_bytes) (simp add: length_ones length_twos)
  moreover have "length (rows_bytes [ones, twos]) div 280 = length [ones, twos]"
    by (simp add: two_rows_length)
  ultimately show ?thesis by (simp only:)
qed

lemma two_rows_not_Nil: "rows_bytes [ones, twos] \<noteq> []"
  using two_rows_length by auto

lemma centroid_count_2: "centroid_count 2 = 2"
proof -
  have "int_sqrt 2 = 1" by (rule int_sqrt_unique) simp_all
  then show ?thesis by (simp add: centroid_count_def Let_def)
qed

lemma two_rows_fit:
  "km_fit km_distinct (centroid_count (length (rows_bytes [ones, twos]) div 280))
     (map (row_at (rows_bytes [ones, twos])) [0..<length (rows_bytes [ones, twos]) div 280])
   = Inr [ones, twos]"
  unfolding two_rows_rows
  using ones_neq_twos by (simp add: two_rows_length centroid_count_2 km_distinct_def)

lemma two_rows_predict:
  "km_predict km_distinct [ones, twos]
     (map (row_at (rows_bytes [ones, twos])) [0..<length (rows_bytes [ones, twos]) div 280])
   = Inr [0, 1]"
  unfolding two_rows_rows
  using ones_neq_twos by (simp add: km_distinct_def)

lemma two_row_store_build:
  assumes "db_file db = Some (rows_bytes [ones, twos])" and "writes_left db = None"
  shows "build_index km_distinct db
       = (db\<lparr>no_centroids := 2, index_dir := Some (built_index [0, 1] [ones, twos])\<rparr>, Inr ())"
proof -
  have "build_index km_distinct db
      = (db\<lparr>no_centroids := centroid_count (length (rows_bytes [ones, twos]) div 280),
             index_dir := Some (built_index [0, 1] (km_centers km_distinct [ones, twos]))\<rparr>, Inr ())"
    using assms(1) two_rows_not_Nil assms(2) two_rows_fit two_rows_predict
    by (rule build_index_unlimited)
  then show ?thesis
    by (simp add: two_rows_length centroid_count_2 km_distinct_def)
qed

lemma two_row_store_fields:
  "db_file two_row_store = Some (rows_bytes [ones, twos])" "writes_left two_row_store = None"
  "index_dir two_row_store = None"
  by (simp_all add: two_row_store_def empty_store_def)

lemma two_row_store_count: "get_num_records two_row_store = Inr 2"
  by (simp add: get_num_records_Inr two_row_store_fields two_rows_length)

lemma km_distinct_labels_every_row: "labels_every_row km_distinct"
  by (auto simp: labels_every_row_def km_distinct_def)

subsection \<open>C2: the posting lists partition the row ids\<close>

text \<open>
  C2: when an index build over a store of \<open>n\<close> rows returns, and the clustering library
  gives \<^verbatim>\<open>predict\<close> one label per row, the posting lists in the index directory
  partition the row ids below \<open>n\<close>: every list is free of duplicates and holds ids
  below \<open>n\<close> only, and every id below \<open>n\<close> is in the list of exactly one file.
\<close>

theorem build_index_partitions_row_ids:
  assumes "labels_every_row K" and "get_num_records db = Inr n"
    and "snd (build_index K db) = Inr ()"
  shows "posting_lists_partition (fst (build_index K db)) n"
proof -
  obtain bs where bs: "db_file db = Some bs" and n: "n = length bs div 280"
    using assms(2) by (auto simp: get_num_records_Inr)
  obtain db' where b: "build_index K db = (db', Inr ())"
    using assms(3) by (cases "build_index K db") auto
  obtain fitted labels
    where p: "km_predict K fitted (map (row_at bs) [0..<length bs div 280]) = Inr labels"
      and d: "index_dir db' = Some (built_index labels (km_centers K fitted))"
    using build_index_ok [OF b bs] by blast
  have "length labels = length (map (row_at bs) [0..<length bs div 280])"
    using assms(1) p unfolding labels_every_row_def by blast
  then have "length labels = n" using n by simp
  with d have "posting_lists_partition db' n" by (rule built_index_partition)
  then show ?thesis using b by simp
qed

theorem build_index_partitions_row_ids_witness:
  "labels_every_row km_distinct
   \<and> get_num_records two_row_store = Inr 2
   \<and> snd (build_index km_distinct two_row_store) = Inr ()
   \<and> posting_lists_partition (fst (build_index km_distinct two_row_store)) 2"
  using build_index_partitions_row_ids [of km_distinct two_row_store 2]
  by (simp add: km_distinct_labels_every_row two_row_store_count
      two_row_store_build [OF two_row_store_fields(1,2)])

subsection \<open>C7: a rebuild that fails\<close>







subsection \<open>C10: a new database replaces the file\<close>





subsection \<open>Selection of the largest\<close>


lemma set_heapq_nlargest: "set (heapq_nlargest n key xs) \<subseteq> set xs"
proof -
  have "set (take (nat n) (rev (sort_key key (rev xs)))) \<subseteq> set (rev (sort_key key (rev xs)))"
    by (rule set_take_subset)
  then show ?thesis by (simp add: heapq_nlargest_def)
qed

lemma zip_score_pairs: "p \<in> set (zip (map score ids) ids) \<Longrightarrow> fst p = score (snd p)"
  by (auto simp: set_zip)

lemma length_ranking: "length (ranking score ids) = length ids"
  by (simp add: ranking_def)

lemma set_ranking: "set (ranking score ids) = set ids"
proof -
  have "set (ranking score ids) = snd ` set (zip (map score ids) ids)"
    by (simp add: ranking_def)
  also have "\<dots> = set (map snd (zip (map score ids) ids))" by (simp only: set_map)
  also have "map snd (zip (map score ids) ids) = ids" by (simp add: map_snd_zip)
  finally show ?thesis .
qed

lemma map_score_ranking:
  "map score (ranking score ids) = map fst (rev (sort_key fst (rev (zip (map score ids) ids))))"
proof -
  have "\<forall>p \<in> set (rev (sort_key fst (rev (zip (map score ids) ids)))). score (snd p) = fst p"
    using zip_score_pairs [of _ score ids] by simp
  then show ?thesis by (simp add: ranking_def)
qed

lemma ranking_descending: "sorted (rev (map score (ranking score ids)))"
proof -
  have "rev (map score (ranking score ids))
      = map fst (sort_key fst (rev (zip (map score ids) ids)))"
    unfolding map_score_ranking by (simp add: rev_map)
  then show ?thesis by simp
qed

lemma ranking_stable:
  "filter (\<lambda>i. score i = s) (ranking score ids) = filter (\<lambda>i. score i = s) ids"
proof -
  let ?zs = "zip (map score ids) ids"
  let ?S = "rev (sort_key fst (rev ?zs))"
  have mem: "\<And>zs. set zs \<subseteq> set ?zs \<Longrightarrow>
      filter (\<lambda>i. score i = s) (map snd zs) = map snd (filter (\<lambda>p. fst p = s) zs)"
  proof -
    fix zs :: "('a \<times> nat) list"
    assume "set zs \<subseteq> set ?zs"
    then have "\<forall>p \<in> set zs. (score (snd p) = s) = (fst p = s)"
      using zip_score_pairs [of _ score ids] by auto
    then have "filter ((\<lambda>i. score i = s) \<circ> snd) zs = filter (\<lambda>p. fst p = s) zs"
      by (intro filter_cong) simp_all
    then show "filter (\<lambda>i. score i = s) (map snd zs) = map snd (filter (\<lambda>p. fst p = s) zs)"
      by (simp add: filter_map)
  qed
  have "filter (\<lambda>p. fst p = s) ?S = rev (filter (\<lambda>p. fst p = s) (sort_key fst (rev ?zs)))"
    by (simp add: rev_filter)
  also have "\<dots> = rev (filter (\<lambda>p. fst p = s) (rev ?zs))"
    by (simp only: sort_key_stable)
  also have "\<dots> = filter (\<lambda>p. fst p = s) ?zs"
    by (simp add: rev_filter)
  finally have st: "filter (\<lambda>p. fst p = s) ?S = filter (\<lambda>p. fst p = s) ?zs" .
  have "filter (\<lambda>i. score i = s) (ranking score ids) = map snd (filter (\<lambda>p. fst p = s) ?S)"
    unfolding ranking_def by (rule mem) simp
  also have "\<dots> = map snd (filter (\<lambda>p. fst p = s) ?zs)" by (simp only: st)
  also have "\<dots> = filter (\<lambda>i. score i = s) (map snd ?zs)" by (rule mem [symmetric]) simp
  also have "map snd ?zs = ids" by (simp add: map_snd_zip)
  finally show ?thesis .
qed

lemma nlargest_ranking:
  "map snd (heapq_nlargest n fst (zip (map score ids) ids)) = take (nat n) (ranking score ids)"
  by (simp add: heapq_nlargest_def ranking_def take_map)

subsection \<open>What retrieval returns\<close>

lemma retrieve_eq:
  assumes "probed_ids A db query = Inr ids" and "db_file db = Some bs" and "ids \<noteq> []"
    and "\<forall>i \<in> set ids. i < length bs div 280" and "length query = DIMENSION"
  shows "retrieve A db query top_k
       = Inr (take (nat top_k) (ranking (\<lambda>i. cosine A (row_at bs i) query) ids))"
proof -
  have rows: "get_rows db (map int ids) = map (\<lambda>x. row_at bs (nat x)) (map int ids)"
    using assms(2) by (rule get_rows_in_range) (use assms(3,4) in auto)
  have data: "get_rows db (map int ids) = map (row_at bs) ids"
    unfolding rows by (simp add: comp_def)
  obtain n tc postings where n: "get_num_records db = Inr n"
    and tc: "get_top_centroids A db query (n_probs_of n) = Inr tc"
    and ps: "read_postings db (map snd tc) = Inr postings"
    and ids: "ids = concat postings"
    using assms(1) by (auto simp: probed_ids_def split: sum.splits)
  have "retrieve A db query top_k
      = Inr (map snd (heapq_nlargest top_k fst
               (zip (map (\<lambda>i. cosine A (row_at bs i) query) ids) ids)))"
    using assms(5) data
    by (simp add: retrieve_def n tc ps ids [symmetric] Let_def cosine_def comp_def)
  then show ?thesis by (simp only: nlargest_ranking)
qed

subsection \<open>Probing an index that a build has left\<close>

lemma ranking_all_tied:
  assumes "\<forall>i \<in> set ids. score i = s"
  shows "ranking score ids = ids"
proof -
  have "\<forall>i \<in> set (ranking score ids). score i = s"
    using assms by (simp add: set_ranking)
  then have "filter (\<lambda>i. score i = s) (ranking score ids) = ranking score ids"
    by (intro filter_True) simp
  moreover have "filter (\<lambda>i. score i = s) ids = ids"
    using assms by (intro filter_True) simp
  ultimately show ?thesis using ranking_stable [of score s ids] by simp
qed

lemma read_postings_built:
  assumes "index_dir db = Some (built_index labels cs)" and "\<forall>c \<in> set xs. c \<in> set labels"
  shows "read_postings db xs = Inr (map (np_where_eq labels) xs)"
  using assms(2)
  by (induction xs) (simp_all add: read_file_records_mmap_def assms(1) built_index_posting)

lemma get_top_centroids_built:
  assumes "index_dir db = Some (built_index labels cs)" and "cs \<noteq> []" and "length cs \<noteq> 1"
    and "\<forall>c \<in> set cs. length c = length q"
  shows "get_top_centroids A db q k
       = Inr (heapq_nlargest (int k) (\<lambda>x. x) (zip (map (\<lambda>c. cosine A c q) cs) [0..<length cs]))"
  using assms(2,3,4)
  by (simp add: get_top_centroids_def read_file_centroids_with_memap_def assms(1)
      built_index_centroids vectorized_cal_score_def cosine_def Let_def)

lemma snd_top_centroids:
  assumes "c \<in> set (map snd (heapq_nlargest k key (zip scores [0..<n])))"
  shows "c < n"
proof -
  obtain p where p: "p \<in> set (heapq_nlargest k key (zip scores [0..<n]))" and c: "c = snd p"
    using assms by auto
  have "p \<in> set (zip scores [0..<n])"
    using p set_heapq_nlargest [of k key "zip scores [0..<n]"] by auto
  then have "snd p \<in> set [0..<n]" by (metis prod.collapse set_zip_rightD)
  then show ?thesis using c by simp
qed

lemma probed_ids_built:
  assumes "index_dir db = Some (built_index labels cs)" and "db_file db = Some bs"
    and "cs \<noteq> []" and "length cs \<noteq> 1" and "\<forall>c \<in> set cs. length c = length q"
    and "\<forall>c < length cs. c \<in> set labels"
  shows "probed_ids A db q
       = Inr (concat (map (np_where_eq labels)
                (map snd (heapq_nlargest (int (n_probs_of (length bs div 280))) (\<lambda>x. x)
                            (zip (map (\<lambda>c. cosine A c q) cs) [0..<length cs])))))"
proof -
  let ?tc = "heapq_nlargest (int (n_probs_of (length bs div 280))) (\<lambda>x. x)
               (zip (map (\<lambda>c. cosine A c q) cs) [0..<length cs])"
  have n: "get_num_records db = Inr (length bs div 280)"
    using assms(2) by (simp add: get_num_records_Inr)
  have tc: "get_top_centroids A db q (n_probs_of (length bs div 280)) = Inr ?tc"
    using assms(1,3,4,5) by (rule get_top_centroids_built)
  have "\<forall>c \<in> set (map snd ?tc). c \<in> set labels"
    using snd_top_centroids assms(6) by blast
  then have ps: "read_postings db (map snd ?tc) = Inr (map (np_where_eq labels) (map snd ?tc))"
    using assms(1) by (intro read_postings_built) simp_all
  show ?thesis by (simp add: probed_ids_def n tc ps)
qed


subsection \<open>Scores of the example vectors\<close>

lemma f32_value_one: "f32_value f32_one = 1"
  by (simp add: f32_value_def f32_one_def Let_def)

lemma f32_value_two: "f32_value 0x40000000 = 2"
  by (simp add: f32_value_def Let_def)

lemma cosine_ones_ones: "cosine exact_arith ones ones = 1"
  by (simp add: cosine_def exact_arith_def ones_def zip_replicate sum_list_replicate
      f32_value_one DIMENSION_def)

lemma cosine_twos_ones: "cosine exact_arith twos ones = 1"
proof -
  have "sqrt 280 * sqrt 70 = sqrt (140 * 140)"
    by (simp add: real_sqrt_mult [symmetric])
  also have "\<dots> = \<bar>140\<bar>" by (rule real_sqrt_abs2)
  also have "\<dots> = 140" by simp
  finally have s: "sqrt 280 * sqrt 70 = 140" .
  show ?thesis
    by (simp add: cosine_def exact_arith_def ones_def twos_def zip_replicate sum_list_replicate
        f32_value_one f32_value_two DIMENSION_def s)
qed

lemma top_two_tied:
  "heapq_nlargest 12 (\<lambda>x. x) [(1::real, 0::nat), (1, Suc 0)] = [(1, Suc 0), (1, 0)]"
  by (simp add: heapq_nlargest_def less_eq_prod_def)

subsection \<open>The store of three rows\<close>

lemma three_rows_length: "length (rows_bytes [ones, twos, ones]) = 840"
  using length_rows_bytes [of "[ones, twos, ones]"] by (simp add: length_ones length_twos)

lemma three_rows_rows:
  "map (row_at (rows_bytes [ones, twos, ones])) [0..<length (rows_bytes [ones, twos, ones]) div 280]
     = [ones, twos, ones]"
proof -
  have "map (row_at (rows_bytes [ones, twos, ones])) [0..<length [ones, twos, ones]]
      = [ones, twos, ones]"
    by (rule rows_of_rows_bytes) (simp add: length_ones length_twos)
  moreover have "length (rows_bytes [ones, twos, ones]) div 280 = length [ones, twos, ones]"
    by (simp add: three_rows_length)
  ultimately show ?thesis by (simp only:)
qed

lemma three_rows_row_at:
  "row_at (rows_bytes [ones, twos, ones]) 0 = ones"
  "row_at (rows_bytes [ones, twos, ones]) (Suc 0) = twos"
  "row_at (rows_bytes [ones, twos, ones]) 2 = ones"
proof -
  have w: "\<forall>r \<in> set [ones, twos, ones]. length r = 70"
    by (simp add: length_ones length_twos)
  have "row_at ([] @ rows_bytes [ones, twos, ones] @ []) (0 + 0) = [ones, twos, ones] ! 0"
    using _ w by (rule row_at_appended) simp_all
  then show "row_at (rows_bytes [ones, twos, ones]) 0 = ones" by simp
  have "row_at ([] @ rows_bytes [ones, twos, ones] @ []) (0 + 1) = [ones, twos, ones] ! 1"
    using _ w by (rule row_at_appended) simp_all
  then show "row_at (rows_bytes [ones, twos, ones]) (Suc 0) = twos" by simp
  have "row_at ([] @ rows_bytes [ones, twos, ones] @ []) (0 + 2) = [ones, twos, ones] ! 2"
    using _ w by (rule row_at_appended) simp_all
  then show "row_at (rows_bytes [ones, twos, ones]) 2 = ones" by (simp add: numeral_2_eq_2)
qed

lemma three_rows_not_Nil: "rows_bytes [ones, twos, ones] \<noteq> []"
  using three_rows_length by auto

lemma centroid_count_3: "centroid_count 3 = 2"
proof -
  have "int_sqrt 3 = 1" by (rule int_sqrt_unique) simp_all
  then show ?thesis by (simp add: centroid_count_def Let_def)
qed

lemma three_row_store_fields:
  "db_file three_row_store = Some (rows_bytes [ones, twos, ones])"
  "writes_left three_row_store = None"
  by (simp_all add: three_row_store_def empty_store_def)

lemma three_row_store_build:
  "build_index km_distinct three_row_store
     = (three_row_store\<lparr>no_centroids := 2,
          index_dir := Some (built_index [1, 0, 1] [twos, ones])\<rparr>, Inr ())"
proof -
  have fit: "km_fit km_distinct (centroid_count (length (rows_bytes [ones, twos, ones]) div 280))
       (map (row_at (rows_bytes [ones, twos, ones]))
          [0..<length (rows_bytes [ones, twos, ones]) div 280])
     = Inr [twos, ones]"
    unfolding three_rows_rows
    using ones_neq_twos by (simp add: three_rows_length centroid_count_3 km_distinct_def)
  have pred: "km_predict km_distinct [twos, ones]
       (map (row_at (rows_bytes [ones, twos, ones]))
          [0..<length (rows_bytes [ones, twos, ones]) div 280])
     = Inr [1, 0, 1]"
    unfolding three_rows_rows
    using ones_neq_twos by (simp add: km_distinct_def)
  have "build_index km_distinct three_row_store
      = (three_row_store\<lparr>no_centroids := centroid_count (length (rows_bytes [ones, twos, ones]) div 280),
             index_dir := Some (built_index [1, 0, 1] (km_centers km_distinct [twos, ones]))\<rparr>,
         Inr ())"
    using three_row_store_fields(1) three_rows_not_Nil three_row_store_fields(2) fit pred
    by (rule build_index_unlimited)
  then show ?thesis
    by (simp add: three_rows_length centroid_count_3 km_distinct_def)
qed

lemma np_where_eq_101:
  "np_where_eq [Suc 0, 0, Suc 0] (Suc 0) = [0, 2]" "np_where_eq [Suc 0, 0, Suc 0] 0 = [Suc 0]"
  "np_where_eq [0, Suc 0, 0] (Suc 0) = [Suc 0]" "np_where_eq [0, Suc 0, 0] 0 = [0, 2]"
  by (simp_all add: np_where_eq_def upt_rec)

lemma three_rows_probe_a:
  assumes "db_file db = Some (rows_bytes [ones, twos, ones])"
    and "index_dir db = Some (built_index [1, 0, 1] [twos, ones])"
  shows "probed_ids exact_arith db ones = Inr [0, 2, 1]"
proof -
  have "probed_ids exact_arith db ones
       = Inr (concat (map (np_where_eq [1, 0, 1])
                (map snd (heapq_nlargest
                            (int (n_probs_of (length (rows_bytes [ones, twos, ones]) div 280)))
                            (\<lambda>x. x)
                            (zip (map (\<lambda>c. cosine exact_arith c ones) [twos, ones])
                               [0..<length [twos, ones]])))))"
    using assms(2,1) by (rule probed_ids_built) (auto simp: length_ones length_twos)
  also have "int (n_probs_of (length (rows_bytes [ones, twos, ones]) div 280)) = 12"
    by (simp add: three_rows_length n_probs_of_def)
  also have "zip (map (\<lambda>c. cosine exact_arith c ones) [twos, ones]) [0..<length [twos, ones]]
      = [(1, 0), (1, Suc 0)]"
    by (simp add: cosine_ones_ones cosine_twos_ones upt_rec)
  finally show ?thesis
    by (simp add: top_two_tied np_where_eq_101)
qed

lemma three_rows_probe_b:
  assumes "db_file db = Some (rows_bytes [ones, twos, ones])"
    and "index_dir db = Some (built_index [0, 1, 0] [ones, twos])"
  shows "probed_ids exact_arith db ones = Inr [1, 0, 2]"
proof -
  have "probed_ids exact_arith db ones
       = Inr (concat (map (np_where_eq [0, 1, 0])
                (map snd (heapq_nlargest
                            (int (n_probs_of (length (rows_bytes [ones, twos, ones]) div 280)))
                            (\<lambda>x. x)
                            (zip (map (\<lambda>c. cosine exact_arith c ones) [ones, twos])
                               [0..<length [ones, twos]])))))"
    using assms(2,1) by (rule probed_ids_built) (auto simp: length_ones length_twos)
  also have "int (n_probs_of (length (rows_bytes [ones, twos, ones]) div 280)) = 12"
    by (simp add: three_rows_length n_probs_of_def)
  also have "zip (map (\<lambda>c. cosine exact_arith c ones) [ones, twos]) [0..<length [ones, twos]]
      = [(1, 0), (1, Suc 0)]"
    by (simp add: cosine_ones_ones cosine_twos_ones upt_rec)
  finally show ?thesis
    by (simp add: top_two_tied np_where_eq_101)
qed

lemma three_rows_scores:
  assumes "i < 3"
  shows "cosine exact_arith (row_at (rows_bytes [ones, twos, ones]) i) ones = 1"
proof -
  have "i = 0 \<or> i = Suc 0 \<or> i = 2" using assms by auto
  then show ?thesis
    by (auto simp: three_rows_row_at cosine_ones_ones cosine_twos_ones)
qed

lemma three_rows_retrieve:
  assumes "db_file db = Some (rows_bytes [ones, twos, ones])"
    and "probed_ids exact_arith db ones = Inr ids" and "ids \<noteq> []" and "\<forall>i \<in> set ids. i < 3"
  shows "retrieve exact_arith db ones top_k = Inr (take (nat top_k) ids)"
proof -
  have "retrieve exact_arith db ones top_k
      = Inr (take (nat top_k)
          (ranking (\<lambda>i. cosine exact_arith (row_at (rows_bytes [ones, twos, ones]) i) ones) ids))"
    using assms(2,1,3)
    by (rule retrieve_eq) (use assms(4) in \<open>simp_all add: three_rows_length length_ones DIMENSION_def\<close>)
  moreover have "ranking (\<lambda>i. cosine exact_arith (row_at (rows_bytes [ones, twos, ones]) i) ones) ids
      = ids"
    by (rule ranking_all_tied [where s = 1]) (use assms(4) three_rows_scores in auto)
  ultimately show ?thesis by simp
qed

subsection \<open>C3: the order of the ids that retrieval returns\<close>

text \<open>
  C3, as stated, fails. The store holds the rows \<open>ones\<close>, \<open>twos\<close>, \<open>ones\<close>; with the
  query \<open>ones\<close> the three rows have the same cosine similarity (the same in floating
  point too: a factor two changes no rounding). The build puts the rows 0 and 2 in one
  posting list and row 1 in the other, and retrieval returns the ids in the order
  \<open>[0, 2, 1]\<close>: id 2 comes before id 1 with the same score. With the two centroids
  numbered the other way round it returns \<open>[1, 0, 2]\<close>. Ids of equal score come in the
  order of the posting lists they were read from.
\<close>

theorem retrieve_ties_not_by_ascending_id:
  "retrieve exact_arith (fst (build_index km_distinct three_row_store)) ones 5 = Inr [0, 2, 1]
   \<and> get_one_row three_row_store 2 = NdArray ones
   \<and> get_one_row three_row_store 1 = NdArray twos
   \<and> cosine exact_arith ones ones = cosine exact_arith twos ones
   \<and> retrieve exact_arith
        (three_row_store\<lparr>index_dir := Some (built_index [0, 1, 0] [ones, twos])\<rparr>) ones 5
       = Inr [1, 0, 2]"
proof -
  let ?a = "three_row_store\<lparr>no_centroids := 2,
              index_dir := Some (built_index [1, 0, 1] [twos, ones])\<rparr>"
  let ?b = "three_row_store\<lparr>index_dir := Some (built_index [0, 1, 0] [ones, twos])\<rparr>"
  have fa: "db_file ?a = Some (rows_bytes [ones, twos, ones])"
    and fb: "db_file ?b = Some (rows_bytes [ones, twos, ones])"
    by (simp_all add: three_row_store_fields)
  have pa: "probed_ids exact_arith ?a ones = Inr [0, 2, 1]"
    using fa by (rule three_rows_probe_a) simp
  have pb: "probed_ids exact_arith ?b ones = Inr [1, 0, 2]"
    using fb by (rule three_rows_probe_b) simp
  have ra: "retrieve exact_arith ?a ones 5 = Inr (take (nat 5) [0, 2, 1])"
    using fa pa by (rule three_rows_retrieve) simp_all
  have rb: "retrieve exact_arith ?b ones 5 = Inr (take (nat 5) [1, 0, 2])"
    using fb pb by (rule three_rows_retrieve) simp_all
  have g2: "get_one_row three_row_store 2 = NdArray (row_at (rows_bytes [ones, twos, ones]) (nat 2))"
    using three_row_store_fields(1) by (rule get_one_row_in_range) (simp_all add: three_rows_length)
  have g1: "get_one_row three_row_store 1 = NdArray (row_at (rows_bytes [ones, twos, ones]) (nat 1))"
    using three_row_store_fields(1) by (rule get_one_row_in_range) (simp_all add: three_rows_length)
  have n2: "nat 2 = 2" "nat 1 = Suc 0" by simp_all
  show ?thesis
    unfolding three_row_store_build fst_conv ra rb g1 g2 n2 three_rows_row_at
      cosine_ones_ones cosine_twos_ones
    by simp
qed

text \<open>
  C3, amended: when the posting lists of the probed centroids hold the ids \<open>ids\<close>, all of
  them rows of the store, and the query has dimension 70, retrieval returns the first
  \<open>top_k\<close> ids of a ranking of \<open>ids\<close>: the ranking has the ids of \<open>ids\<close> and no others,
  its cosine similarities to the query are descending, and the ids of one score are in it
  in their order in \<open>ids\<close>, which is the order of the probed centroids (by descending
  score, then by descending centroid number) and ascending only within one posting list.
  The scores are linearly ordered, as numpy's are when none of them is \<open>nan\<close>, that
  is when neither the query nor a row among the candidates has norm zero.
\<close>

theorem retrieve_ranks_probed_ids:
  assumes "probed_ids A db query = Inr ids" and "db_file db = Some bs" and "ids \<noteq> []"
    and "\<forall>i \<in> set ids. i < length bs div 280" and "length query = DIMENSION"
  shows "\<exists>ranked. retrieve A db query top_k = Inr (take (nat top_k) ranked)
           \<and> length ranked = length ids \<and> set ranked = set ids
           \<and> sorted (rev (map (\<lambda>i. cosine A (row_at bs i) query) ranked))
           \<and> (\<forall>s. filter (\<lambda>i. cosine A (row_at bs i) query = s) ranked
                    = filter (\<lambda>i. cosine A (row_at bs i) query = s) ids)"
proof (intro exI conjI allI)
  show "retrieve A db query top_k
      = Inr (take (nat top_k) (ranking (\<lambda>i. cosine A (row_at bs i) query) ids))"
    using assms by (rule retrieve_eq)
  show "length (ranking (\<lambda>i. cosine A (row_at bs i) query) ids) = length ids"
    by (rule length_ranking)
  show "set (ranking (\<lambda>i. cosine A (row_at bs i) query) ids) = set ids"
    by (rule set_ranking)
  show "sorted (rev (map (\<lambda>i. cosine A (row_at bs i) query)
                  (ranking (\<lambda>i. cosine A (row_at bs i) query) ids)))"
    by (rule ranking_descending)
  show "filter (\<lambda>i. cosine A (row_at bs i) query = s)
          (ranking (\<lambda>i. cosine A (row_at bs i) query) ids)
      = filter (\<lambda>i. cosine A (row_at bs i) query = s) ids" for s
    by (rule ranking_stable)
qed

theorem retrieve_ranks_probed_ids_witness:
  "probed_ids exact_arith (fst (build_index km_distinct three_row_store)) ones = Inr [0, 2, 1]
   \<and> db_file (fst (build_index km_distinct three_row_store))
       = Some (rows_bytes [ones, twos, ones])
   \<and> [0, 2, 1::nat] \<noteq> []
   \<and> (0::nat) < length (rows_bytes [ones, twos, ones]) div 280
   \<and> (2::nat) < length (rows_bytes [ones, twos, ones]) div 280
   \<and> (1::nat) < length (rows_bytes [ones, twos, ones]) div 280
   \<and> length ones = DIMENSION
   \<and> (\<exists>ranked. retrieve exact_arith (fst (build_index km_distinct three_row_store)) ones 2
                  = Inr (take (nat 2) ranked)
           \<and> length ranked = length [0, 2, 1::nat] \<and> set ranked = set [0, 2, 1]
           \<and> sorted (rev (map (\<lambda>i. cosine exact_arith
                                      (row_at (rows_bytes [ones, twos, ones]) i) ones) ranked))
           \<and> (\<forall>s. filter (\<lambda>i. cosine exact_arith
                                   (row_at (rows_bytes [ones, twos, ones]) i) ones = s) ranked
                    = filter (\<lambda>i. cosine exact_arith
                                   (row_at (rows_bytes [ones, twos, ones]) i) ones = s) [0, 2, 1]))"
proof -
  let ?a = "three_row_store\<lparr>no_centroids := 2,
              index_dir := Some (built_index [1, 0, 1] [twos, ones])\<rparr>"
  have fa: "db_file ?a = Some (rows_bytes [ones, twos, ones])"
    by (simp add: three_row_store_fields)
  have pa: "probed_ids exact_arith ?a ones = Inr [0, 2, 1]"
    using fa by (rule three_rows_probe_a) simp
  have b: "fst (build_index km_distinct three_row_store) = ?a"
    by (simp add: three_row_store_build)
  have d: "length ones = DIMENSION" by (simp add: length_ones DIMENSION_def)
  have l: "length (rows_bytes [ones, twos, ones]) div 280 = 3"
    by (simp add: three_rows_length)
  show ?thesis
    using retrieve_ranks_probed_ids
      [of exact_arith "fst (build_index km_distinct three_row_store)" ones "[0, 2, 1]"
          "rows_bytes [ones, twos, ones]" 2]
    unfolding b using pa fa d l by simp
qed

subsection \<open>Lists made of repeated blocks\<close>










subsection \<open>The store of a hundred rows\<close>















subsection \<open>C8: how many ids retrieval returns\<close>





subsection \<open>C9: the scores and a zero norm\<close>

lemma f32_value_0: "f32_value 0 = 0"
  by (simp add: f32_value_def)

lemma norm_zeros: "np_norm exact_arith zeros = 0"
  by (simp add: exact_arith_def zeros_def f32_value_0 sum_list_replicate)

lemma length_zeros: "length zeros = 70"
  by (simp add: zeros_def DIMENSION_def)

text \<open>
  C9, as stated, fails. The zero vector has norm 0, and both score functions return a
  value for it: the quotient of the dot product by a product of norms that has the
  factor 0. Nothing is raised.
\<close>

theorem zero_norm_is_divided_by:
  "np_norm exact_arith zeros = 0
   \<and> cal_score exact_arith zeros ones
       = Inr (np_div exact_arith (np_dot exact_arith zeros ones)
                (np_mul exact_arith 0 (np_norm exact_arith ones)))
   \<and> vectorized_cal_score exact_arith [zeros] ones
       = Inr [np_div exact_arith (np_dot exact_arith zeros ones)
                (np_mul exact_arith 0 (np_norm exact_arith ones))]"
proof -
  have "cal_score exact_arith zeros ones
      = Inr (np_div exact_arith (np_dot exact_arith zeros ones)
               (np_mul exact_arith (np_norm exact_arith zeros) (np_norm exact_arith ones)))"
    by (simp add: cal_score_def length_zeros length_ones)
  moreover have "vectorized_cal_score exact_arith [zeros] ones
      = Inr [np_div exact_arith (np_dot exact_arith zeros ones)
               (np_mul exact_arith (np_norm exact_arith zeros) (np_norm exact_arith ones))]"
    by (simp add: vectorized_cal_score_def length_zeros length_ones)
  ultimately show ?thesis
    unfolding norm_zeros by (simp only: norm_zeros simp_thms)
qed

text \<open>
  C9, amended: under every arithmetic, the score of two vectors of the same length is
  returned and is the dot product divided by the product of the two norms; the
  vectorised score of a non-empty array of rows as long as the query is returned and is
  that quotient for every row; and retrieval, when the probed posting lists hold ids of
  rows of the store and the query has dimension 70, returns the ids ranked by that
  quotient of each row and the query. There is no test of a norm on any of the three
  paths: a zero norm is divided by.
\<close>

theorem scores_are_unguarded_cosines:
  "(length a = length b \<longrightarrow> cal_score A a b = Inr (cosine A a b))
   \<and> (rows \<noteq> [] \<and> (\<forall>r \<in> set rows. length r = length b) \<longrightarrow>
        vectorized_cal_score A rows b = Inr (map (\<lambda>r. cosine A r b) rows))
   \<and> (probed_ids A db b = Inr ids \<and> db_file db = Some bs \<and> ids \<noteq> []
        \<and> (\<forall>i \<in> set ids. i < length bs div 280) \<and> length b = DIMENSION \<longrightarrow>
        retrieve A db b top_k
          = Inr (take (nat top_k) (ranking (\<lambda>i. cosine A (row_at bs i) b) ids)))"
proof (intro conjI impI)
  assume "length a = length b"
  then show "cal_score A a b = Inr (cosine A a b)"
    by (simp add: cal_score_def cosine_def)
next
  assume "rows \<noteq> [] \<and> (\<forall>r \<in> set rows. length r = length b)"
  then show "vectorized_cal_score A rows b = Inr (map (\<lambda>r. cosine A r b) rows)"
    by (simp add: vectorized_cal_score_def cosine_def)
next
  assume h: "probed_ids A db b = Inr ids \<and> db_file db = Some bs \<and> ids \<noteq> []
        \<and> (\<forall>i \<in> set ids. i < length bs div 280) \<and> length b = DIMENSION"
  show "retrieve A db b top_k
      = Inr (take (nat top_k) (ranking (\<lambda>i. cosine A (row_at bs i) b) ids))"
    by (rule retrieve_eq) (use h in simp_all)
qed

theorem scores_are_unguarded_cosines_witness:
  "length zeros = length ones
   \<and> cal_score exact_arith zeros ones = Inr (cosine exact_arith zeros ones)
   \<and> [zeros, ones] \<noteq> [] \<and> length zeros = length ones \<and> length ones = length ones
   \<and> vectorized_cal_score exact_arith [zeros, ones] ones
       = Inr [cosine exact_arith zeros ones, cosine exact_arith ones ones]
   \<and> probed_ids exact_arith (fst (build_index km_distinct three_row_store)) ones = Inr [0, 2, 1]
   \<and> db_file (fst (build_index km_distinct three_row_store))
       = Some (rows_bytes [ones, twos, ones])
   \<and> [0, 2, 1::nat] \<noteq> []
   \<and> (0::nat) < length (rows_bytes [ones, twos, ones]) div 280
   \<and> (2::nat) < length (rows_bytes [ones, twos, ones]) div 280
   \<and> (1::nat) < length (rows_bytes [ones, twos, ones]) div 280
   \<and> length ones = DIMENSION
   \<and> retrieve exact_arith (fst (build_index km_distinct three_row_store)) ones 5
       = Inr (take (nat 5)
               (ranking (\<lambda>i. cosine exact_arith (row_at (rows_bytes [ones, twos, ones]) i) ones)
                  [0, 2, 1]))"
proof -
  let ?a = "three_row_store\<lparr>no_centroids := 2,
              index_dir := Some (built_index [1, 0, 1] [twos, ones])\<rparr>"
  have fa: "db_file ?a = Some (rows_bytes [ones, twos, ones])"
    by (simp add: three_row_store_fields)
  have pa: "probed_ids exact_arith ?a ones = Inr [0, 2, 1]"
    using fa by (rule three_rows_probe_a) simp
  have b: "fst (build_index km_distinct three_row_store) = ?a"
    by (simp add: three_row_store_build)
  have d: "length ones = DIMENSION" by (simp add: length_ones DIMENSION_def)
  have l: "length (rows_bytes [ones, twos, ones]) div 280 = 3"
    by (simp add: three_rows_length)
  show ?thesis
    using scores_are_unguarded_cosines
      [of zeros ones exact_arith "[zeros, ones]"
          "fst (build_index km_distinct three_row_store)" "[0, 2, 1]"
          "rows_bytes [ones, twos, ones]" 5]
    unfolding b using pa fa d l by (simp add: length_zeros length_ones)
qed

end
